theory Spec2Isabelle
  imports Complex_Main
begin

section \<open>Disease Transmission Simulator: the random source\<close>

text \<open>
  The program draws all its randomness from Python's global generator. The model threads
  that generator explicitly: a tape of raw 53-bit words and the position of the next
  unread word. \<open>random()\<close> returns \<open>k / 2^53\<close> for a \<open>k\<close> with \<open>0 \<le> k < 2^53\<close>, so
  it lies in \<open>[0, 1)\<close> and can be exactly \<open>0.0\<close>. Python floats are read as reals.
\<close>

type_synonym tape = "nat \<Rightarrow> nat"

datatype error = ValueError | IndexError | KeyError | ZeroDivisionError

definition random :: "tape \<Rightarrow> nat \<Rightarrow> real" where
  "random tp p = real (tp p mod 9007199254740992) / 9007199254740992"

text \<open>\<open>flip(p)\<close>: \<open>return random() <= p\<close>. The result and the next tape position.\<close>

definition flip :: "tape \<Rightarrow> nat \<Rightarrow> real \<Rightarrow> bool \<times> nat" where
  "flip tp p q = (random tp p \<le> q, Suc p)"

text \<open>
  \<open>randint(a, b)\<close> of the standard library: an integer of \<open>[a, b]\<close>, every one of them
  reachable; \<open>ValueError\<close> on an empty range. One word of the tape is used.
\<close>

definition randint :: "tape \<Rightarrow> nat \<Rightarrow> int \<Rightarrow> int \<Rightarrow> error + (int \<times> nat)" where
  "randint tp p a b =
     (if b < a then Inl ValueError
      else Inr (a + \<lfloor>random tp p * real_of_int (b - a + 1)\<rfloor>, Suc p))"

text \<open>
  \<open>sample(population, k)\<close> of the standard library: \<open>k\<close> elements at distinct positions
  of the population, in selection order; \<open>ValueError\<close> when \<open>k\<close> is negative or larger
  than the population. Each selection removes one element of the remaining pool, at the
  position the next word of the tape chooses.
\<close>

fun pick :: "tape \<Rightarrow> nat \<Rightarrow> 'a list \<Rightarrow> nat \<Rightarrow> 'a list \<times> nat" where
  "pick tp p pool 0 = ([], p)"
| "pick tp p pool (Suc k) =
     (let j = nat \<lfloor>random tp p * real (length pool)\<rfloor>;
          r = pick tp (Suc p) (take j pool @ drop (Suc j) pool) k
      in (pool ! j # fst r, snd r))"

definition sample :: "tape \<Rightarrow> nat \<Rightarrow> 'a list \<Rightarrow> int \<Rightarrow> error + ('a list \<times> nat)" where
  "sample tp p population k =
     (if k < 0 \<or> int (length population) < k then Inl ValueError
      else Inr (pick tp p population (nat k)))"

section \<open>binnedSample\<close>

text \<open>
  An argument of \<open>binnedSample\<close> is an \<open>int\<close> or a \<open>tuple\<close>. Sizes (\<open>N\<close>) are counts of
  agents and are natural numbers; requested counts (\<open>k\<close>) are integers. A Python \<open>set\<close>
  is a duplicate-free list, in the order the program iterates it.
\<close>

datatype 'a arg = IntV 'a | TupV "'a list"

text \<open>
  The loop of mode 3, over the indices \<open>i\<close> of \<open>range(len(k))\<close>:
  \<open>bin_end = sum(N[0:i+1])\<close>, \<open>bin_start = bin_end - N[i]\<close>,
  \<open>samples += sample(range(bin_start, bin_end), k[i])\<close>.
\<close>

fun bins_loop ::
  "tape \<Rightarrow> int list \<Rightarrow> nat list \<Rightarrow> nat list \<Rightarrow> nat list \<times> nat \<Rightarrow> error + (nat list \<times> nat)" where
  "bins_loop tp k N [] acc = Inr acc"
| "bins_loop tp k N (i # is) acc =
     (let bin_start = sum_list (take (i + 1) N) - N ! i;
          bin_end = sum_list (take (i + 1) N)
      in case sample tp (snd acc) [bin_start..<bin_end] (k ! i) of
           Inl e \<Rightarrow> Inl e
         | Inr r \<Rightarrow> bins_loop tp k N is (fst acc @ fst r, snd r))"

definition binnedSample ::
  "tape \<Rightarrow> nat \<Rightarrow> int arg \<Rightarrow> nat arg \<Rightarrow> error + (nat list \<times> nat)" where
  "binnedSample tp p k N =
     (case (k, N) of
        (IntV k', IntV N') \<Rightarrow>
          (case sample tp p [0..<N'] k' of
             Inl e \<Rightarrow> Inl e
           | Inr r \<Rightarrow> Inr (remdups (fst r), snd r))
      | (IntV k', TupV Ns) \<Rightarrow>
          (case sample tp p [0..<sum_list Ns] k' of
             Inl e \<Rightarrow> Inl e
           | Inr r \<Rightarrow> Inr (remdups (fst r), snd r))
      | (TupV ks, TupV Ns) \<Rightarrow>
          (if length ks = length Ns
           then (case bins_loop tp ks Ns [0..<length ks] ([], p) of
                   Inl e \<Rightarrow> Inl e
                 | Inr r \<Rightarrow> Inr (remdups (fst r), snd r))
           else Inr ([], p))
      | (TupV ks, IntV N') \<Rightarrow> Inr ([], p))"

section \<open>The population\<close>

text \<open>
  An agent is a dictionary; the keys \<open>type\<close> and \<open>sociso\<close> are not always present, so
  they are optional fields and reading an absent one is a \<open>KeyError\<close>.
\<close>

record agent =
  state :: int
  vaccine :: real
  mask :: real
  natural_immunity :: real
  type :: "nat option"
  sociso :: "real option"

text \<open>
  The configuration dictionary. \<open>cfg_mixing g\<close> is the entry under the integer key
  \<open>g\<close>: the mixing row of subgroup \<open>g\<close>. The keys \<open>verbose\<close> and \<open>seed\<close> only drive
  printing and the choice of the tape.
\<close>

record config =
  cfg_N :: "nat arg"
  cfg_I :: "int arg"
  cfg_m :: int
  cfg_de :: int
  cfg_di :: int
  cfg_tpe :: real
  cfg_tpi :: real
  cfg_rp :: real
  cfg_vp :: real
  cfg_mp :: real
  cfg_ap :: real
  cfg_ip :: real
  cfg_max :: int
  cfg_mixing :: "nat \<Rightarrow> int list option"

definition lookup :: "agent list \<Rightarrow> nat \<Rightarrow> error + agent" where
  "lookup pop i = (if i < length pop then Inr (pop ! i) else Inl IndexError)"

text \<open>\<open>helper(p)\<close>: \<open>return (flip(p) and random()) or 0\<close>.\<close>

definition helper :: "tape \<Rightarrow> nat \<Rightarrow> real \<Rightarrow> real \<times> nat" where
  "helper tp p q =
     (case flip tp p q of
        (True, p1) \<Rightarrow> (if random tp p1 \<noteq> 0 then random tp p1 else 0, Suc p1)
      | (False, p1) \<Rightarrow> (0, p1))"

text \<open>The comprehension \<open>for _ in range(n)\<close> building \<open>n\<close> agents of one subgroup.\<close>

fun new_agents :: "tape \<Rightarrow> config \<Rightarrow> nat option \<Rightarrow> nat \<Rightarrow> nat \<Rightarrow> agent list \<times> nat" where
  "new_agents tp cfg g 0 p = ([], p)"
| "new_agents tp cfg g (Suc n) p =
     (case helper tp p (cfg_vp cfg) of (v, p1) \<Rightarrow>
      case helper tp p1 (cfg_mp cfg) of (k, p2) \<Rightarrow>
      case new_agents tp cfg g n p2 of (rest, p3) \<Rightarrow>
        (\<lparr>state = - 1, vaccine = v, mask = k, natural_immunity = 0,
          type = g, sociso = None\<rparr> # rest, p3))"

text \<open>The outer comprehension \<open>for subgroup_id in range(len(config['N']))\<close>.\<close>

fun new_groups :: "tape \<Rightarrow> config \<Rightarrow> nat list \<Rightarrow> nat \<Rightarrow> nat \<Rightarrow> agent list \<times> nat" where
  "new_groups tp cfg [] g p = ([], p)"
| "new_groups tp cfg (n # ns) g p =
     (case new_agents tp cfg (Some g) n p of (grp, p1) \<Rightarrow>
      case new_groups tp cfg ns (Suc g) p1 of (rest, p2) \<Rightarrow> (grp @ rest, p2))"

text \<open>
  The statements that infect agent \<open>i\<close>, written twice in the source (in \<open>newPop\<close> and
  in \<open>sim\<close>): \<open>pop[i]['state'] = di + de + 1\<close>, then \<open>sociso\<close> is \<open>0\<close> when
  \<open>flip(ap)\<close>, else \<open>helper(ip)\<close>.
\<close>

definition infect :: "tape \<Rightarrow> config \<Rightarrow> agent list \<Rightarrow> nat \<Rightarrow> nat \<Rightarrow> error + (agent list \<times> nat)" where
  "infect tp cfg pop i p =
     (case lookup pop i of
        Inl e \<Rightarrow> Inl e
      | Inr a \<Rightarrow>
          (case flip tp p (cfg_ap cfg) of
             (True, p1) \<Rightarrow>
               Inr (pop[i := a\<lparr>state := cfg_di cfg + cfg_de cfg + 1, sociso := Some 0\<rparr>], p1)
           | (False, p1) \<Rightarrow>
               (case helper tp p1 (cfg_ip cfg) of (h, p2) \<Rightarrow>
                  Inr (pop[i := a\<lparr>state := cfg_di cfg + cfg_de cfg + 1, sociso := Some h\<rparr>], p2))))"

fun infect_all :: "tape \<Rightarrow> config \<Rightarrow> nat list \<Rightarrow> agent list \<times> nat \<Rightarrow> error + (agent list \<times> nat)" where
  "infect_all tp cfg [] acc = Inr acc"
| "infect_all tp cfg (i # is) acc =
     (case infect tp cfg (fst acc) i (snd acc) of
        Inl e \<Rightarrow> Inl e
      | Inr r \<Rightarrow> infect_all tp cfg is r)"

definition newPop :: "tape \<Rightarrow> nat \<Rightarrow> config \<Rightarrow> error + (agent list \<times> nat list \<times> nat)" where
  "newPop tp p cfg =
     (case (case cfg_N cfg of
              TupV Ns \<Rightarrow> new_groups tp cfg Ns 0 p
            | IntV n \<Rightarrow> new_agents tp cfg None n p) of
        (pop, p1) \<Rightarrow>
          (case binnedSample tp p1 (cfg_I cfg) (cfg_N cfg) of
             Inl e \<Rightarrow> Inl e
           | Inr (infs, p2) \<Rightarrow>
               (case infect_all tp cfg infs (pop, p2) of
                  Inl e \<Rightarrow> Inl e
                | Inr (pop', p3) \<Rightarrow> Inr (pop', infs, p3))))"

section \<open>update\<close>

text \<open>
  The body of \<open>for i in inf\<close>, on the population, the \<open>drop\<close> set and the tape
  position; the loop; and \<open>update\<close>, which returns \<open>inf - drop\<close> (\<open>infs\<close> is the argument
  \<open>inf\<close>, \<open>dropped\<close> the variable \<open>drop\<close>).
\<close>

definition update_body ::
  "tape \<Rightarrow> config \<Rightarrow> nat \<Rightarrow> agent list \<times> nat list \<times> nat \<Rightarrow> error + (agent list \<times> nat list \<times> nat)" where
  "update_body tp cfg i acc =
     (case acc of (pop, dropped, p) \<Rightarrow>
      case lookup pop i of
        Inl e \<Rightarrow> Inl e
      | Inr a \<Rightarrow>
          if state a = 1 then
            (case flip tp p (1 - cfg_rp cfg) of
               (True, p1) \<Rightarrow>
                 Inr (pop[i := a\<lparr>state := - 1,
                        natural_immunity :=
                          min (9 / 10) (natural_immunity a + random tp p1 * (1 / 2))\<rparr>],
                      List.insert i dropped, Suc p1)
             | (False, p1) \<Rightarrow> Inr (pop[i := a\<lparr>state := 0\<rparr>], List.insert i dropped, p1))
          else if 0 < state a then Inr (pop[i := a\<lparr>state := state a - 1\<rparr>], dropped, p)
          else Inr (pop, dropped, p))"

fun update_loop ::
  "tape \<Rightarrow> config \<Rightarrow> nat list \<Rightarrow> agent list \<times> nat list \<times> nat \<Rightarrow> error + (agent list \<times> nat list \<times> nat)" where
  "update_loop tp cfg [] acc = Inr acc"
| "update_loop tp cfg (i # is) acc =
     (case update_body tp cfg i acc of
        Inl e \<Rightarrow> Inl e
      | Inr acc' \<Rightarrow> update_loop tp cfg is acc')"

definition update ::
  "tape \<Rightarrow> nat \<Rightarrow> agent list \<Rightarrow> nat list \<Rightarrow> config \<Rightarrow> error + (agent list \<times> nat list \<times> nat)" where
  "update tp p pop infs cfg =
     (case update_loop tp cfg infs (pop, [], p) of
        Inl e \<Rightarrow> Inl e
      | Inr (pop', dropped, p') \<Rightarrow> Inr (pop', filter (\<lambda>i. i \<notin> set dropped) infs, p'))"

section \<open>The predicates of sim\<close>

definition susceptible :: "tape \<Rightarrow> agent list \<Rightarrow> nat \<Rightarrow> nat \<Rightarrow> error + (bool \<times> nat)" where
  "susceptible tp pop i p =
     (case lookup pop i of
        Inl e \<Rightarrow> Inl e
      | Inr a \<Rightarrow>
          if state a = - 1 then
            (case flip tp p (vaccine a) of
               (True, p1) \<Rightarrow> Inr (False, p1)
             | (False, p1) \<Rightarrow>
                 (case flip tp p1 (mask a) of
                    (True, p2) \<Rightarrow> Inr (False, p2)
                  | (False, p2) \<Rightarrow>
                      (case flip tp p2 (natural_immunity a) of
                         (b, p3) \<Rightarrow> Inr (\<not> b, p3))))
          else Inr (False, p))"

definition exposed :: "config \<Rightarrow> agent list \<Rightarrow> nat \<Rightarrow> error + bool" where
  "exposed cfg pop i =
     (case lookup pop i of
        Inl e \<Rightarrow> Inl e
      | Inr a \<Rightarrow> Inr (cfg_di cfg < state a \<and> state a \<le> cfg_di cfg + cfg_de cfg))"

definition infected :: "config \<Rightarrow> agent list \<Rightarrow> nat \<Rightarrow> error + bool" where
  "infected cfg pop i =
     (case lookup pop i of
        Inl e \<Rightarrow> Inl e
      | Inr a \<Rightarrow> Inr (0 < state a \<and> state a \<le> cfg_di cfg))"

definition infectious :: "tape \<Rightarrow> config \<Rightarrow> agent list \<Rightarrow> nat \<Rightarrow> nat \<Rightarrow> error + (bool \<times> nat)" where
  "infectious tp cfg pop i p =
     (case lookup pop i of
        Inl e \<Rightarrow> Inl e
      | Inr a \<Rightarrow>
          if 0 < state a \<and> state a \<le> cfg_di cfg + cfg_de cfg then
            (case flip tp p (mask a) of
               (True, p1) \<Rightarrow> Inr (False, p1)
             | (False, p1) \<Rightarrow>
                 (case sociso a of
                    None \<Rightarrow> Inl KeyError
                  | Some si \<Rightarrow> (case flip tp p1 si of (b, p2) \<Rightarrow> Inr (\<not> b, p2))))
          else Inr (False, p))"

text \<open>
  The condition of the \<open>if\<close> in the contact loop, with Python's short-circuit order:
  \<open>infectious(i) and susceptible(j) and ((exposed(i) and flip(tpe)) or (infected(i) and flip(tpi)))\<close>.
\<close>

definition transmits ::
  "tape \<Rightarrow> config \<Rightarrow> agent list \<Rightarrow> nat \<Rightarrow> nat \<Rightarrow> nat \<Rightarrow> error + (bool \<times> nat)" where
  "transmits tp cfg pop i j p =
     (case infectious tp cfg pop i p of
        Inl e \<Rightarrow> Inl e
      | Inr (False, p1) \<Rightarrow> Inr (False, p1)
      | Inr (True, p1) \<Rightarrow>
          (case susceptible tp pop j p1 of
             Inl e \<Rightarrow> Inl e
           | Inr (False, p2) \<Rightarrow> Inr (False, p2)
           | Inr (True, p2) \<Rightarrow>
               (case exposed cfg pop i of
                  Inl e \<Rightarrow> Inl e
                | Inr ex \<Rightarrow>
                    (case (if ex then flip tp p2 (cfg_tpe cfg) else (False, p2)) of
                       (True, p3) \<Rightarrow> Inr (True, p3)
                     | (False, p3) \<Rightarrow>
                         (case infected cfg pop i of
                            Inl e \<Rightarrow> Inl e
                          | Inr True \<Rightarrow> Inr (flip tp p3 (cfg_tpi cfg))
                          | Inr False \<Rightarrow> Inr (False, p3))))))"

section \<open>sim\<close>

text \<open>
  The variables of \<open>sim\<close> and the position of the tape. \<open>inf_set\<close> is the variable
  \<open>inf\<close>.
\<close>

record sim_state =
  pop :: "agent list"
  inf_set :: "nat list"
  newinf :: "nat list"
  totinf :: int
  ever_infected :: "nat list"
  curve :: "nat list"
  pos :: nat

text \<open>The body of \<open>for j in interactions\<close>.\<close>

definition contact_step :: "tape \<Rightarrow> config \<Rightarrow> nat \<Rightarrow> nat \<Rightarrow> sim_state \<Rightarrow> error + sim_state" where
  "contact_step tp cfg i j s =
     (case transmits tp cfg (pop s) i j (pos s) of
        Inl e \<Rightarrow> Inl e
      | Inr (False, p) \<Rightarrow> Inr (s\<lparr>pos := p\<rparr>)
      | Inr (True, p) \<Rightarrow>
          (case infect tp cfg (pop s) j p of
             Inl e \<Rightarrow> Inl e
           | Inr (pop', p') \<Rightarrow>
               Inr (s\<lparr>pop := pop', newinf := List.insert j (newinf s),
                      totinf := totinf s + 1,
                      ever_infected := List.insert j (ever_infected s), pos := p'\<rparr>)))"

fun contacts_loop :: "tape \<Rightarrow> config \<Rightarrow> nat \<Rightarrow> nat list \<Rightarrow> sim_state \<Rightarrow> error + sim_state" where
  "contacts_loop tp cfg i [] s = Inr s"
| "contacts_loop tp cfg i (j # js) s =
     (case contact_step tp cfg i j s of
        Inl e \<Rightarrow> Inl e
      | Inr s' \<Rightarrow> contacts_loop tp cfg i js s')"

text \<open>Python's \<open>round\<close> on a float: to the nearest integer, a half to the even one.\<close>

definition py_round :: "real \<Rightarrow> int" where
  "py_round x =
     (if x - of_int \<lfloor>x\<rfloor> < 1 / 2 then \<lfloor>x\<rfloor>
      else if 1 / 2 < x - of_int \<lfloor>x\<rfloor> then \<lfloor>x\<rfloor> + 1
      else if even \<lfloor>x\<rfloor> then \<lfloor>x\<rfloor> else \<lfloor>x\<rfloor> + 1)"

text \<open>Who agent \<open>i\<close> meets today: the contacts in iteration order.\<close>

definition interactions :: "tape \<Rightarrow> config \<Rightarrow> agent list \<Rightarrow> nat \<Rightarrow> nat \<Rightarrow> error + (nat list \<times> nat)" where
  "interactions tp cfg ps i p =
     (case cfg_N cfg of
        TupV Ns \<Rightarrow>
          (case randint tp p 0 (cfg_m cfg) of
             Inl e \<Rightarrow> Inl e
           | Inr (num_interactions, p1) \<Rightarrow>
               (case lookup ps i of
                  Inl e \<Rightarrow> Inl e
                | Inr a \<Rightarrow>
                    (case type a of
                       None \<Rightarrow> Inl KeyError
                     | Some g \<Rightarrow>
                         (case cfg_mixing cfg g of
                            None \<Rightarrow> Inl KeyError
                          | Some row \<Rightarrow>
                              binnedSample tp p1
                                (TupV (map (\<lambda>pct. py_round
                                   (real_of_int (num_interactions * pct) / 100)) row))
                                (TupV Ns)))))
      | IntV n \<Rightarrow>
          (case randint tp p 0 (cfg_m cfg) of
             Inl e \<Rightarrow> Inl e
           | Inr (num_interactions, p1) \<Rightarrow> sample tp p1 [0..<length ps] num_interactions))"

text \<open>The body of \<open>for i in inf\<close> in the transmission phase, and the loop.\<close>

definition agent_step :: "tape \<Rightarrow> config \<Rightarrow> nat \<Rightarrow> sim_state \<Rightarrow> error + sim_state" where
  "agent_step tp cfg i s =
     (case interactions tp cfg (pop s) i (pos s) of
        Inl e \<Rightarrow> Inl e
      | Inr (js, p) \<Rightarrow> contacts_loop tp cfg i js (s\<lparr>pos := p\<rparr>))"

fun scan :: "tape \<Rightarrow> config \<Rightarrow> nat list \<Rightarrow> sim_state \<Rightarrow> error + sim_state" where
  "scan tp cfg [] s = Inr s"
| "scan tp cfg (i # is) s =
     (case agent_step tp cfg i s of
        Inl e \<Rightarrow> Inl e
      | Inr s' \<Rightarrow> scan tp cfg is s')"

text \<open>
  The first half of a day: \<open>inf = update(pop, inf, config); curve.append(len(inf))\<close>.
\<close>

definition begin_day :: "tape \<Rightarrow> config \<Rightarrow> sim_state \<Rightarrow> error + sim_state" where
  "begin_day tp cfg s =
     (case update tp (pos s) (pop s) (inf_set s) cfg of
        Inl e \<Rightarrow> Inl e
      | Inr (pop', inf', p') \<Rightarrow>
          Inr (s\<lparr>pop := pop', inf_set := inf', curve := curve s @ [length inf'], pos := p'\<rparr>))"

text \<open>
  The second half: \<open>newinf = set()\<close>, the scan over \<open>inf\<close>, then \<open>inf.update(newinf)\<close>.
\<close>

definition transmission :: "tape \<Rightarrow> config \<Rightarrow> sim_state \<Rightarrow> error + sim_state" where
  "transmission tp cfg s =
     (case scan tp cfg (inf_set s) (s\<lparr>newinf := []\<rparr>) of
        Inl e \<Rightarrow> Inl e
      | Inr s' \<Rightarrow> Inr (s'\<lparr>inf_set := fold List.insert (newinf s') (inf_set s')\<rparr>))"

text \<open>
  What a run reports: which of the two final branches it took (the \<open>break\<close> of the
  loop prints "Pandemic extinguished", its \<open>else\<close> prints "Pandemic persists"), the
  returned curve and the printed statistics. \<open>attack_rate\<close> divides by \<open>len(pop)\<close>.
\<close>

datatype outcome = Extinguished | Persists

record report =
  r_outcome :: outcome
  r_curve :: "nat list"
  r_totinf :: int
  r_unique :: nat
  r_attack_rate :: real
  r_reinfections :: int

definition finalize :: "outcome \<Rightarrow> sim_state \<Rightarrow> error + report" where
  "finalize oc s =
     (if length (pop s) = 0 then Inl ZeroDivisionError
      else Inr \<lparr>r_outcome = oc, r_curve = curve s, r_totinf = totinf s,
                r_unique = length (ever_infected s),
                r_attack_rate = (100 * real (length (ever_infected s))) / real (length (pop s)),
                r_reinfections = totinf s - int (length (ever_infected s))\<rparr>)"

text \<open>The \<open>while rounds < config['max']\<close> loop with its \<open>break\<close> and its \<open>else\<close>.\<close>

function sim_loop :: "tape \<Rightarrow> config \<Rightarrow> int \<Rightarrow> sim_state \<Rightarrow> error + report" where
  "sim_loop tp cfg rounds s =
     (if rounds < cfg_max cfg then
        (case begin_day tp cfg s of
           Inl e \<Rightarrow> Inl e
         | Inr s1 \<Rightarrow>
             if last (curve s1) = 0 then finalize Extinguished s1
             else (case transmission tp cfg s1 of
                     Inl e \<Rightarrow> Inl e
                   | Inr s2 \<Rightarrow> sim_loop tp cfg (rounds + 1) s2))
      else finalize Persists s)"
  by pat_completeness auto
termination
  by (relation "measure (\<lambda>(tp, cfg, rounds, s). nat (cfg_max cfg - rounds))") auto

definition init :: "tape \<Rightarrow> config \<Rightarrow> error + sim_state" where
  "init tp cfg =
     (case newPop tp 0 cfg of
        Inl e \<Rightarrow> Inl e
      | Inr (pop0, inf0, p) \<Rightarrow>
          Inr \<lparr>pop = pop0, inf_set = inf0, newinf = [], totinf = int (length inf0),
               ever_infected = inf0, curve = [length inf0], pos = p\<rparr>)"

definition sim :: "tape \<Rightarrow> config \<Rightarrow> error + report" where
  "sim tp cfg =
     (case init tp cfg of
        Inl e \<Rightarrow> Inl e
      | Inr s \<Rightarrow> sim_loop tp cfg 0 s)"

section \<open>The run of sim, step by step\<close>

text \<open>
  The control points of \<open>sim\<close>: \<open>Head r\<close> is the test of the \<open>while\<close> loop with
  \<open>rounds = r\<close>; \<open>Updated r\<close> is the point after \<open>update\<close> and \<open>curve.append\<close>;
  \<open>Scan r is\<close> is the head of \<open>for i in inf\<close> with the agents \<open>is\<close> still to visit;
  \<open>Contacts r i js is\<close> is the head of \<open>for j in interactions\<close> for agent \<open>i\<close> with the
  contacts \<open>js\<close> still to visit. A step runs the code between two control points.
\<close>

datatype point =
  Head int
| Updated int
| Scan int "nat list"
| Contacts int nat "nat list" "nat list"

inductive sim_step :: "tape \<Rightarrow> config \<Rightarrow> point \<times> sim_state \<Rightarrow> point \<times> sim_state \<Rightarrow> bool"
  for tp :: tape and cfg :: config where
  st_update: "r < cfg_max cfg \<Longrightarrow> begin_day tp cfg s = Inr s' \<Longrightarrow>
     sim_step tp cfg (Head r, s) (Updated r, s')"
| st_scan: "last (curve s) \<noteq> 0 \<Longrightarrow>
     sim_step tp cfg (Updated r, s) (Scan r (inf_set s), s\<lparr>newinf := []\<rparr>)"
| st_sample: "interactions tp cfg (pop s) i (pos s) = Inr (js, p) \<Longrightarrow>
     sim_step tp cfg (Scan r (i # is), s) (Contacts r i js is, s\<lparr>pos := p\<rparr>)"
| st_contact: "contact_step tp cfg i j s = Inr s' \<Longrightarrow>
     sim_step tp cfg (Contacts r i (j # js) is, s) (Contacts r i js is, s')"
| st_next: "sim_step tp cfg (Contacts r i [] is, s) (Scan r is, s)"
| st_merge: "sim_step tp cfg (Scan r [], s)
     (Head (r + 1), s\<lparr>inf_set := fold List.insert (newinf s) (inf_set s)\<rparr>)"

code_pred sim_step .

text \<open>The control points and states a run passes through.\<close>

definition reachable :: "tape \<Rightarrow> config \<Rightarrow> point \<times> sim_state \<Rightarrow> bool" where
  "reachable tp cfg x = (\<exists>s0. init tp cfg = Inr s0 \<and> (sim_step tp cfg)\<^sup>*\<^sup>* (Head 0, s0) x)"

text \<open>The points of the transmission scan of day \<open>r\<close>.\<close>

fun scanning :: "int \<Rightarrow> point \<Rightarrow> bool" where
  "scanning r (Scan r' is) = (r' = r)"
| "scanning r (Contacts r' i js is) = (r' = r)"
| "scanning r (Head r') = False"
| "scanning r (Updated r') = False"

text \<open>The day boundaries: the loop head and the point after \<open>update\<close>.\<close>

fun boundary :: "point \<Rightarrow> bool" where
  "boundary (Head r) = True"
| "boundary (Updated r) = True"
| "boundary (Scan r is) = False"
| "boundary (Contacts r i js is) = False"

section \<open>Auxiliary notions of the statements\<close>

text \<open>
  Bin \<open>i\<close> of the sizes \<open>N\<close> is the range \<open>[sum(N[0..i)),
  sum(N[0..i+1)))\<close>.
\<close>

definition in_bin :: "nat list \<Rightarrow> nat \<Rightarrow> nat \<Rightarrow> bool" where
  "in_bin N i x = (sum_list (take i N) \<le> x \<and> x < sum_list (take (Suc i) N))"

text \<open>A tape all of whose draws are \<open>0.5\<close>, for concrete runs.\<close>

definition tape_half :: tape where
  "tape_half = (\<lambda>_. 4503599627370496)"

text \<open>A small flat population on its first day, for concrete runs.\<close>

definition cfg_w :: config where
  "cfg_w = \<lparr>cfg_N = IntV 2, cfg_I = IntV 1, cfg_m = 1, cfg_de = 3, cfg_di = 5,
     cfg_tpe = 1, cfg_tpi = 1, cfg_rp = 1 / 2, cfg_vp = 0, cfg_mp = 0, cfg_ap = 0, cfg_ip = 0,
     cfg_max = 3, cfg_mixing = (\<lambda>_. None)\<rparr>"



text \<open>A tape all of whose draws are exactly \<open>0.0\<close>.\<close>

definition tape_zero :: tape where
  "tape_zero = (\<lambda>_. 0)"

text \<open>An unprotected susceptible agent.\<close>

definition agent_plain :: agent where
  "agent_plain = \<lparr>state = - 1, vaccine = 0, mask = 0, natural_immunity = 0, type = None,
     sociso = None\<rparr>"

text \<open>
  Devices of the invariant proofs: the indices of the agents with a positive state, and the
  relation between the infected set, the day's new infections and the states.
\<close>

definition infected_indices :: "sim_state \<Rightarrow> nat set" where
  "infected_indices s = {i. i < length (pop s) \<and> 0 < state (pop s ! i)}"

definition inv_sets :: "point \<Rightarrow> sim_state \<Rightarrow> bool" where
  "inv_sets pt s =
     (distinct (inf_set s)
      \<and> (if boundary pt then set (inf_set s) = infected_indices s
         else set (inf_set s) \<union> set (newinf s) = infected_indices s))"

text \<open>
  The state of the small flat population after its creation on the tape of halves.
\<close>

definition state_i :: sim_state where
  "state_i = \<lparr>pop = [agent_plain, agent_plain\<lparr>state := 9, sociso := Some 0\<rparr>],
     inf_set = [1], newinf = [], totinf = 1, ever_infected = [1], curve = [1], pos = 7\<rparr>"

text \<open>
  The order in which a run passes its control points: day by day, and within a day the loop
  head, the update, the scan.
\<close>

fun rank :: "point \<Rightarrow> int" where
  "rank (Head r) = 3 * r"
| "rank (Updated r) = 3 * r + 1"
| "rank (Scan r is) = 3 * r + 2"
| "rank (Contacts r i js is) = 3 * r + 2"

text \<open>The counting invariant, and the report of the small flat population's run.\<close>

definition inv_count :: "sim_state \<Rightarrow> bool" where
  "inv_count s =
     (distinct (ever_infected s) \<and> int (length (ever_infected s)) \<le> totinf s)"

definition report_w :: report where
  "report_w = \<lparr>r_outcome = Persists, r_curve = [1, 1, 1, 1], r_totinf = 1, r_unique = 1,
     r_attack_rate = 50, r_reinfections = 0\<rparr>"

text \<open>
  The immunity invariant, and the small flat population after its first update.
\<close>

definition inv_imm :: "sim_state \<Rightarrow> bool" where
  "inv_imm s =
     (distinct (inf_set s) \<and> (\<forall>i<length (pop s). natural_immunity (pop s ! i) \<le> 9 / 10))"

definition state_u :: sim_state where
  "state_u = state_i\<lparr>pop := [agent_plain, agent_plain\<lparr>state := 8, sociso := Some 0\<rparr>],
     curve := [1, 1]\<rparr>"

text \<open>
  The frame of a scan with respect to the state at its start, and a scan in which two
  infectious agents meet the same susceptible agent.
\<close>

definition scan_frame :: "config \<Rightarrow> sim_state \<Rightarrow> sim_state \<Rightarrow> bool" where
  "scan_frame cfg s1 s =
     (inf_set s = inf_set s1 \<and> length (pop s) = length (pop s1)
      \<and> (\<forall>j<length (pop s1).
            if j \<in> set (newinf s)
            then state (pop s1 ! j) = - 1 \<and> state (pop s ! j) = cfg_di cfg + cfg_de cfg + 1
            else state (pop s ! j) = state (pop s1 ! j)))"

definition cfg_c :: config where
  "cfg_c = cfg_w\<lparr>cfg_N := IntV 3\<rparr>"

definition scan_a :: sim_state where
  "scan_a = \<lparr>pop = [agent_plain\<lparr>state := 8, sociso := Some 0\<rparr>, agent_plain,
                     agent_plain\<lparr>state := 8, sociso := Some 0\<rparr>],
     inf_set = [0, 2], newinf = [], totinf = 2, ever_infected = [0, 2], curve = [2, 2],
     pos = 0\<rparr>"

definition scan_b :: sim_state where
  "scan_b = scan_a\<lparr>pop := [agent_plain\<lparr>state := 8, sociso := Some 0\<rparr>,
                            agent_plain\<lparr>state := 9, sociso := Some 0\<rparr>,
                            agent_plain\<lparr>state := 8, sociso := Some 0\<rparr>],
     newinf := [1], totinf := 3, ever_infected := [1, 0, 2], pos := 10\<rparr>"

text \<open>
  Devices and concrete runs for the curve: a curve whose only zero is its last entry; the
  scenario without transmission; a configuration without initially infected agents.
\<close>

definition zero_only_last :: "nat list \<Rightarrow> bool" where
  "zero_only_last c = (\<forall>d<length c. c ! d = 0 \<longrightarrow> Suc d = length c)"

definition cfg_s :: config where
  "cfg_s = cfg_w\<lparr>cfg_tpe := 0, cfg_tpi := 0, cfg_rp := 1, cfg_max := 20\<rparr>"

definition report_s :: report where
  "report_s = \<lparr>r_outcome = Extinguished, r_curve = [1, 1, 1, 1, 1, 1, 1, 1, 1, 0],
     r_totinf = 1, r_unique = 1, r_attack_rate = 50, r_reinfections = 0\<rparr>"

definition cfg_none :: config where
  "cfg_none = cfg_w\<lparr>cfg_I := IntV 0\<rparr>"

definition report_none :: report where
  "report_none = \<lparr>r_outcome = Extinguished, r_curve = [0, 0], r_totinf = 0, r_unique = 0,
     r_attack_rate = 0, r_reinfections = 0\<rparr>"

text \<open>
  Devices of the scenario without transmission: a tape without a draw of exactly zero, and
  two states that differ at most in the tape position.
\<close>

definition no_zero_draw :: "tape \<Rightarrow> bool" where
  "no_zero_draw tp = (\<forall>n. tp n mod 9007199254740992 \<noteq> 0)"

definition idle :: "sim_state \<Rightarrow> sim_state \<Rightarrow> bool" where
  "idle s s' =
     (pop s' = pop s \<and> inf_set s' = inf_set s \<and> newinf s' = newinf s \<and> totinf s' = totinf s
      \<and> ever_infected s' = ever_infected s \<and> curve s' = curve s)"

text \<open>
  The indices of the infected set and of the day's new infections are agents of the
  population that have their sociso key.
\<close>

definition well_formed :: "sim_state \<Rightarrow> bool" where
  "well_formed s =
     (\<forall>i\<in>set (inf_set s) \<union> set (newinf s). i < length (pop s) \<and> sociso (pop s ! i) \<noteq> None)"

text \<open>
  A tape of halves but for two draws: \<open>0.25\<close> at position 8 (the choice of the contact)
  and exactly \<open>0.0\<close> at position 14 (the trial \<open>flip(tpe)\<close> of that contact).
\<close>

definition tape_slip :: tape where
  "tape_slip = (\<lambda>n. if n = 8 then 2251799813685248 else if n = 14 then 0
                     else 4503599627370496)"





section \<open>The random source: basic facts\<close>

lemma random_ge0: "0 \<le> random tp p"
  by (simp add: random_def)

lemma random_lt1: "random tp p < 1"
proof -
  have "tp p mod 9007199254740992 < 9007199254740992" by simp
  then have "real (tp p mod 9007199254740992) < 9007199254740992"
    by (metis of_nat_less_iff of_nat_numeral)
  then show ?thesis by (simp add: random_def)
qed

lemma pick_index: "pool \<noteq> [] \<Longrightarrow> nat \<lfloor>random tp p * real (length pool)\<rfloor> < length pool"
proof -
  assume ne: "pool \<noteq> []"
  then have pos: "0 < real (length pool)" by simp
  have "random tp p * real (length pool) < 1 * real (length pool)"
    using random_lt1 [of tp p] pos by (rule mult_strict_right_mono)
  then have lt: "random tp p * real (length pool) < real (length pool)" by simp
  have ge: "0 \<le> random tp p * real (length pool)"
    using random_ge0 [of tp p] by simp
  have "\<lfloor>random tp p * real (length pool)\<rfloor> < int (length pool)"
    using lt by (simp add: floor_less_iff)
  moreover have "0 \<le> \<lfloor>random tp p * real (length pool)\<rfloor>" using ge by simp
  ultimately show ?thesis by linarith
qed

lemma pick_snd: "snd (pick tp p pool k) = p + k"
  by (induction k arbitrary: p pool) (simp_all add: Let_def)

lemma pick_length: "length (fst (pick tp p pool k)) = k"
  by (induction k arbitrary: p pool) (simp_all add: Let_def)

lemma set_remove_nth: "set (take j xs @ drop (Suc j) xs) \<subseteq> set xs"
  using set_take_subset [of j xs] set_drop_subset [of "Suc j" xs] by auto

lemma nth_notin_remove_nth:
  "distinct xs \<Longrightarrow> j < length xs \<Longrightarrow> xs ! j \<notin> set (take j xs @ drop (Suc j) xs)"
proof -
  assume d: "distinct xs" and j: "j < length xs"
  have "xs = take j xs @ xs ! j # drop (Suc j) xs" using j by (rule id_take_nth_drop)
  then have "distinct (take j xs @ xs ! j # drop (Suc j) xs)" using d by simp
  then show ?thesis by auto
qed

lemma distinct_remove_nth: "distinct xs \<Longrightarrow> distinct (take j xs @ drop (Suc j) xs)"
proof -
  assume d: "distinct xs"
  have "distinct (take j xs @ drop j xs)" using d by simp
  then show ?thesis
    by (metis d distinct_append distinct_drop distinct_take set_drop_subset_set_drop Suc_n_not_le_n nat_le_linear disjoint_iff subsetD)
qed

lemma pick_set: "k \<le> length pool \<Longrightarrow> set (fst (pick tp p pool k)) \<subseteq> set pool"
proof (induction k arbitrary: p pool)
  case 0
  then show ?case by simp
next
  case (Suc k)
  let ?j = "nat \<lfloor>random tp p * real (length pool)\<rfloor>"
  let ?rest = "take ?j pool @ drop (Suc ?j) pool"
  from Suc.prems have ne: "pool \<noteq> []" by auto
  then have j: "?j < length pool" by (rule pick_index)
  have "length ?rest = length pool - 1" using j by simp
  then have "k \<le> length ?rest" using Suc.prems by simp
  then have "set (fst (pick tp (Suc p) ?rest k)) \<subseteq> set ?rest" by (rule Suc.IH)
  then have "set (fst (pick tp (Suc p) ?rest k)) \<subseteq> set pool"
    using set_remove_nth [of ?j pool] by blast
  moreover have "pool ! ?j \<in> set pool" using j by simp
  ultimately show ?case by (simp add: Let_def)
qed

lemma pick_distinct:
  "k \<le> length pool \<Longrightarrow> distinct pool \<Longrightarrow> distinct (fst (pick tp p pool k))"
proof (induction k arbitrary: p pool)
  case 0
  then show ?case by simp
next
  case (Suc k)
  let ?j = "nat \<lfloor>random tp p * real (length pool)\<rfloor>"
  let ?rest = "take ?j pool @ drop (Suc ?j) pool"
  from Suc.prems have ne: "pool \<noteq> []" by auto
  then have j: "?j < length pool" by (rule pick_index)
  have "length ?rest = length pool - 1" using j by simp
  then have k: "k \<le> length ?rest" using Suc.prems by simp
  have d: "distinct ?rest" using Suc.prems(2) by (rule distinct_remove_nth)
  have "distinct (fst (pick tp (Suc p) ?rest k))" using k d by (rule Suc.IH)
  moreover have "set (fst (pick tp (Suc p) ?rest k)) \<subseteq> set ?rest" using k by (rule pick_set)
  moreover have "pool ! ?j \<notin> set ?rest" using Suc.prems(2) j by (rule nth_notin_remove_nth)
  ultimately show ?case by (auto simp add: Let_def)
qed

text \<open>Unfolding the recursions over a count written as a numeral.\<close>

lemma pick_numeral:
  "pick tp p pool (numeral n) =
     (let j = nat \<lfloor>random tp p * real (length pool)\<rfloor>;
          r = pick tp (Suc p) (take j pool @ drop (Suc j) pool) (pred_numeral n)
      in (pool ! j # fst r, snd r))"
  by (simp add: numeral_eq_Suc)

lemma new_agents_numeral:
  "new_agents tp cfg g (numeral n) p =
     (case helper tp p (cfg_vp cfg) of (v, p1) \<Rightarrow>
      case helper tp p1 (cfg_mp cfg) of (k, p2) \<Rightarrow>
      case new_agents tp cfg g (pred_numeral n) p2 of (rest, p3) \<Rightarrow>
        (\<lparr>state = - 1, vaccine = v, mask = k, natural_immunity = 0,
          type = g, sociso = None\<rparr> # rest, p3))"
  by (simp add: numeral_eq_Suc)

section \<open>binnedSample, mode 3\<close>

lemma sample_ok:
  assumes "0 \<le> k" and "k \<le> int (length pool)" and "distinct pool"
  shows "\<exists>xs. sample tp p pool k = Inr (xs, p + nat k) \<and> distinct xs
           \<and> set xs \<subseteq> set pool \<and> length xs = nat k"
proof -
  have le: "nat k \<le> length pool" using assms by linarith
  have eq: "sample tp p pool k = Inr (pick tp p pool (nat k))"
    using assms by (simp add: sample_def)
  have "pick tp p pool (nat k) = (fst (pick tp p pool (nat k)), p + nat k)"
    by (metis pick_snd prod.collapse)
  with eq have "sample tp p pool k = Inr (fst (pick tp p pool (nat k)), p + nat k)" by simp
  moreover have "distinct (fst (pick tp p pool (nat k)))"
    using le assms(3) by (rule pick_distinct)
  moreover have "set (fst (pick tp p pool (nat k))) \<subseteq> set pool" using le by (rule pick_set)
  moreover have "length (fst (pick tp p pool (nat k))) = nat k" by (rule pick_length)
  ultimately show ?thesis by blast
qed

lemma sum_take_mono: "i \<le> j \<Longrightarrow> sum_list (take i (N::nat list)) \<le> sum_list (take j N)"
proof -
  assume "i \<le> j"
  then have "take j N = take i N @ take (j - i) (drop i N)"
    by (metis le_add_diff_inverse take_add)
  then show ?thesis by simp
qed

lemma sum_take_le: "sum_list (take i (N::nat list)) \<le> sum_list N"
  using sum_take_mono [of i "length N" N] by (cases "i \<le> length N") simp_all

lemma sum_take_Suc: "i < length N \<Longrightarrow> sum_list (take (Suc i) (N::nat list)) = sum_list (take i N) + N ! i"
  by (simp add: take_Suc_conv_app_nth)

lemma bins_loop_ok:
  assumes len: "length k = length N"
    and ok: "\<forall>i<length k. 0 \<le> k ! i \<and> k ! i \<le> int (N ! i)"
  shows "n = length k - a \<Longrightarrow> a \<le> length k \<Longrightarrow>
    \<exists>new p'. bins_loop tp k N [a..<length k] (acc, p) = Inr (acc @ new, p')
      \<and> distinct new
      \<and> (\<forall>x\<in>set new. sum_list (take a N) \<le> x \<and> x < sum_list N)
      \<and> (\<forall>i<length k. length (filter (in_bin N i) new) = (if a \<le> i then nat (k ! i) else 0))
      \<and> int (length new) = sum_list (drop a k)
      \<and> (\<forall>x\<in>set new. \<exists>i<length k. in_bin N i x)"
proof (induction n arbitrary: a acc p)
  case 0
  then have "a = length k" by simp
  then show ?case by simp
next
  case (Suc n)
  then have a: "a < length k" by simp
  then have aN: "a < length N" using len by simp
  have upt: "[a..<length k] = a # [Suc a..<length k]" using a by (rule upt_conv_Cons)
  let ?s = "sum_list (take a N)"
  let ?e = "sum_list (take (Suc a) N)"
  have e: "?e = ?s + N ! a" using aN by (rule sum_take_Suc)
  have ka: "0 \<le> k ! a" "k ! a \<le> int (N ! a)" using ok a by auto
  have "k ! a \<le> int (length [?s..<?e])" using ka e by simp
  with ka(1) obtain xs where xs: "sample tp p [?s..<?e] (k ! a) = Inr (xs, p + nat (k ! a))"
    "distinct xs" "set xs \<subseteq> set [?s..<?e]" "length xs = nat (k ! a)"
    using sample_ok [of "k ! a" "[?s..<?e]" tp p] by auto
  have n: "n = length k - Suc a" using Suc.prems by simp
  have a': "Suc a \<le> length k" using a by simp
  from Suc.IH [OF n a', of "acc @ xs" "p + nat (k ! a)"]
  obtain new p' where new:
    "bins_loop tp k N [Suc a..<length k] (acc @ xs, p + nat (k ! a)) = Inr ((acc @ xs) @ new, p')"
    "distinct new"
    "\<forall>x\<in>set new. ?e \<le> x \<and> x < sum_list N"
    "\<forall>i<length k. length (filter (in_bin N i) new) = (if Suc a \<le> i then nat (k ! i) else 0)"
    "int (length new) = sum_list (drop (Suc a) k)"
    "\<forall>x\<in>set new. \<exists>i<length k. in_bin N i x"
    by blast
  have run: "bins_loop tp k N [a..<length k] (acc, p) = Inr (acc @ (xs @ new), p')"
    using xs(1) new(1) e by (simp add: upt)
  have xr: "\<forall>x\<in>set xs. ?s \<le> x \<and> x < ?e" using xs(3) by auto
  have d: "distinct (xs @ new)" using xs(2) new(2) xr new(3) by fastforce
  have r: "\<forall>x\<in>set (xs @ new). ?s \<le> x \<and> x < sum_list N"
  proof
    fix x assume "x \<in> set (xs @ new)"
    then consider "x \<in> set xs" | "x \<in> set new" by auto
    then show "?s \<le> x \<and> x < sum_list N"
    proof cases
      case 1
      then have "?s \<le> x" "x < ?e" using xr by auto
      moreover have "?e \<le> sum_list N" by (rule sum_take_le)
      ultimately show ?thesis by simp
    next
      case 2
      then have "?e \<le> x" "x < sum_list N" using new(3) by auto
      then show ?thesis using e by simp
    qed
  qed
  have c: "\<forall>i<length k. length (filter (in_bin N i) (xs @ new)) = (if a \<le> i then nat (k ! i) else 0)"
  proof (intro allI impI)
    fix i assume i: "i < length k"
    have fx: "filter (in_bin N i) xs = (if i = a then xs else [])"
    proof (cases "i = a")
      case True
      then have "\<forall>x\<in>set xs. in_bin N i x" using xr by (simp add: in_bin_def)
      then show ?thesis using True by simp
    next
      case False
      have "\<forall>x\<in>set xs. \<not> in_bin N i x"
      proof
        fix x assume x: "x \<in> set xs"
        then have b: "?s \<le> x" "x < ?e" using xr by auto
        show "\<not> in_bin N i x"
        proof (cases "i < a")
          case True
          then have "sum_list (take (Suc i) N) \<le> ?s" by (simp add: sum_take_mono)
          then show ?thesis using b by (simp add: in_bin_def)
        next
          case False
          with \<open>i \<noteq> a\<close> have "Suc a \<le> i" by simp
          then have "?e \<le> sum_list (take i N)" by (rule sum_take_mono)
          then show ?thesis using b by (simp add: in_bin_def)
        qed
      qed
      then show ?thesis using False by simp
    qed
    have "length (filter (in_bin N i) new) = (if Suc a \<le> i then nat (k ! i) else 0)"
      using new(4) i by simp
    then show "length (filter (in_bin N i) (xs @ new)) = (if a \<le> i then nat (k ! i) else 0)"
      using fx xs(4) by (cases "i = a") auto
  qed
  have "drop a k = k ! a # drop (Suc a) k" using a by (simp add: Cons_nth_drop_Suc)
  then have l: "int (length (xs @ new)) = sum_list (drop a k)"
    using xs(4) new(5) ka(1) by simp
  have "\<forall>x\<in>set xs. in_bin N a x" using xr by (simp add: in_bin_def)
  then have b: "\<forall>x\<in>set (xs @ new). \<exists>i<length k. in_bin N i x"
    using new(6) a by auto
  show ?case using run d r c l b by blast
qed

text \<open>
  Claim C4. For equal-length tuples \<open>k\<close> and \<open>N\<close> with \<open>0 \<le> k[i] \<le> N[i]\<close> for all
  \<open>i\<close>, \<open>binnedSample(k, N)\<close> returns (it does not raise) a set that is the disjoint
  union over the bins of exactly \<open>k[i]\<close> distinct integers of bin \<open>i\<close>'s absolute range
  \<open>[sum(N[0..i)), sum(N[0..i+1)))\<close>: every element lies in a bin, bin \<open>i\<close> holds exactly
  \<open>k[i]\<close> of them, the size of the result is \<open>sum(k)\<close>, and every element lies in
  \<open>[0, sum(N))\<close>.
\<close>

theorem binnedSample_mode3:
  assumes "length k = length N"
    and "\<forall>i<length k. 0 \<le> k ! i \<and> k ! i \<le> int (N ! i)"
  shows "\<exists>S p'. binnedSample tp p (TupV k) (TupV N) = Inr (S, p')
     \<and> distinct S
     \<and> int (length S) = sum_list k
     \<and> (\<forall>x\<in>set S. x < sum_list N)
     \<and> (\<forall>x\<in>set S. \<exists>i<length k.
            sum_list (take i N) \<le> x \<and> x < sum_list (take (Suc i) N))
     \<and> (\<forall>i<length k.
            int (card {x \<in> set S. sum_list (take i N) \<le> x \<and> x < sum_list (take (Suc i) N)})
              = k ! i)"
proof -
  from bins_loop_ok [OF assms, of "length k - 0" 0 tp "[]" p]
  obtain new p' where new:
    "bins_loop tp k N [0..<length k] ([], p) = Inr (new, p')"
    "distinct new"
    "\<forall>x\<in>set new. x < sum_list N"
    "\<forall>i<length k. length (filter (in_bin N i) new) = nat (k ! i)"
    "int (length new) = sum_list k"
    "\<forall>x\<in>set new. \<exists>i<length k. in_bin N i x"
    by auto
  have run: "binnedSample tp p (TupV k) (TupV N) = Inr (new, p')"
    using new(1,2) assms(1) by (simp add: binnedSample_def)
  have cnt: "\<forall>i<length k.
      int (card {x \<in> set new. sum_list (take i N) \<le> x \<and> x < sum_list (take (Suc i) N)}) = k ! i"
  proof (intro allI impI)
    fix i assume i: "i < length k"
    have "length (filter (in_bin N i) new) = card {x \<in> set new. in_bin N i x}"
      using new(2) by (simp add: distinct_length_filter Collect_conj_eq Int_commute)
    then have "card {x \<in> set new. in_bin N i x} = nat (k ! i)" using new(4) i by simp
    moreover have "0 \<le> k ! i" using assms(2) i by simp
    ultimately show "int (card {x \<in> set new. sum_list (take i N) \<le> x
        \<and> x < sum_list (take (Suc i) N)}) = k ! i"
      by (simp add: in_bin_def)
  qed
  have mem: "\<forall>x\<in>set new. \<exists>i<length k.
      sum_list (take i N) \<le> x \<and> x < sum_list (take (Suc i) N)"
    using new(6) by (simp add: in_bin_def)
  show ?thesis using run new(2,3,5) mem cnt by blast
qed

theorem binnedSample_mode3_witness:
  "binnedSample tape_half 0 (TupV [1, 1, 1]) (TupV [5, 5, 5]) = Inr ([2, 7, 12], 3)
   \<and> (\<exists>S p'. binnedSample tape_half 0 (TupV [1, 1, 1]) (TupV [5, 5, 5]) = Inr (S, p')
         \<and> distinct S \<and> int (length S) = sum_list [1, 1, 1])"
proof -
  have h1: "length [1, 1, 1 :: int] = length [5, 5, 5 :: nat]" by simp
  have h2: "\<forall>i<length [1, 1, 1 :: int].
      0 \<le> [1, 1, 1 :: int] ! i \<and> [1, 1, 1] ! i \<le> int ([5, 5, 5] ! i)"
    by (simp add: nth_Cons' less_Suc_eq)
  have ev: "binnedSample tape_half 0 (TupV [1, 1, 1]) (TupV [5, 5, 5]) = Inr ([2, 7, 12], 3)"
    by (simp add: binnedSample_def sample_def random_def tape_half_def Let_def)
  show ?thesis using ev binnedSample_mode3 [OF h1 h2, of tape_half 0] by blast
qed

section \<open>The transmission decision\<close>


lemma exposed_not_infected:
  "exposed cfg ps i = Inr True \<Longrightarrow> infected cfg ps i = Inr False"
  by (auto simp: exposed_def infected_def split: sum.splits)

lemma infectious_lookup:
  "infectious tp cfg ps i p = Inr r \<Longrightarrow> \<exists>a. lookup ps i = Inr a"
  by (auto simp: infectious_def split: sum.splits)



lemma transmits_True_iff:
  "transmits tp cfg ps i j p = Inr (True, p3) \<longleftrightarrow>
     (\<exists>p1 p2. infectious tp cfg ps i p = Inr (True, p1)
        \<and> susceptible tp ps j p1 = Inr (True, p2)
        \<and> (exposed cfg ps i = Inr True \<and> flip tp p2 (cfg_tpe cfg) = (True, p3)
            \<or> infected cfg ps i = Inr True \<and> flip tp p2 (cfg_tpi cfg) = (True, p3)))"
proof
  assume "transmits tp cfg ps i j p = Inr (True, p3)"
  then show "\<exists>p1 p2. infectious tp cfg ps i p = Inr (True, p1)
        \<and> susceptible tp ps j p1 = Inr (True, p2)
        \<and> (exposed cfg ps i = Inr True \<and> flip tp p2 (cfg_tpe cfg) = (True, p3)
            \<or> infected cfg ps i = Inr True \<and> flip tp p2 (cfg_tpi cfg) = (True, p3))"
    by (auto simp: transmits_def split: sum.splits prod.splits bool.splits if_splits
        dest: exposed_not_infected)
next
  assume "\<exists>p1 p2. infectious tp cfg ps i p = Inr (True, p1)
        \<and> susceptible tp ps j p1 = Inr (True, p2)
        \<and> (exposed cfg ps i = Inr True \<and> flip tp p2 (cfg_tpe cfg) = (True, p3)
            \<or> infected cfg ps i = Inr True \<and> flip tp p2 (cfg_tpi cfg) = (True, p3))"
  then obtain p1 p2 where a: "infectious tp cfg ps i p = Inr (True, p1)"
    and b: "susceptible tp ps j p1 = Inr (True, p2)"
    and c: "exposed cfg ps i = Inr True \<and> flip tp p2 (cfg_tpe cfg) = (True, p3)
            \<or> infected cfg ps i = Inr True \<and> flip tp p2 (cfg_tpi cfg) = (True, p3)"
    by blast
  from c show "transmits tp cfg ps i j p = Inr (True, p3)"
  proof
    assume "exposed cfg ps i = Inr True \<and> flip tp p2 (cfg_tpe cfg) = (True, p3)"
    then show ?thesis using a b by (simp add: transmits_def)
  next
    assume d: "infected cfg ps i = Inr True \<and> flip tp p2 (cfg_tpi cfg) = (True, p3)"
    then have "exposed cfg ps i = Inr False"
      by (auto simp: exposed_def infected_def split: sum.splits)
    then show ?thesis using a b d by (simp add: transmits_def)
  qed
qed

lemma infect_result:
  "infect tp cfg ps j p = Inr (ps', p') \<Longrightarrow>
     j < length ps \<and> length ps' = length ps \<and> p < p'
     \<and> state (ps' ! j) = cfg_di cfg + cfg_de cfg + 1
     \<and> (\<forall>k. k \<noteq> j \<longrightarrow> ps' ! k = ps ! k)
     \<and> vaccine (ps' ! j) = vaccine (ps ! j) \<and> mask (ps' ! j) = mask (ps ! j)
     \<and> natural_immunity (ps' ! j) = natural_immunity (ps ! j)
     \<and> type (ps' ! j) = type (ps ! j)
     \<and> sociso (ps' ! j) \<noteq> None"
  by (auto simp: infect_def lookup_def flip_def helper_def split: sum.splits prod.splits bool.splits if_splits)

lemma susceptible_True_state:
  "susceptible tp ps j p = Inr (True, p2) \<Longrightarrow> j < length ps \<and> state (ps ! j) = - 1"
  by (auto simp: susceptible_def lookup_def split: sum.splits if_splits)

lemma transmits_True_state:
  "transmits tp cfg ps i j p = Inr (True, p3) \<Longrightarrow> j < length ps \<and> state (ps ! j) = - 1"
  using transmits_True_iff [of tp cfg ps i j p p3] susceptible_True_state by blast

lemma transmits_pos: "transmits tp cfg ps i j p = Inr (b, p') \<Longrightarrow> p \<le> p'"
  by (auto simp: transmits_def infectious_def susceptible_def exposed_def infected_def flip_def
      split: sum.splits prod.splits bool.splits if_splits option.splits)

lemma infect_ok:
  assumes "j < length ps"
  shows "\<exists>ps' p'. infect tp cfg ps j p = Inr (ps', p')"
  using assms by (auto simp: infect_def lookup_def split: prod.splits bool.splits)




section \<open>update\<close>

lemma update_body_frame:
  assumes "update_body tp cfg i (ps, d, p) = Inr (ps', d', p')"
  shows "i < length ps \<and> length ps' = length ps \<and> p \<le> p'
     \<and> (\<forall>k. k \<noteq> i \<longrightarrow> ps' ! k = ps ! k)
     \<and> (\<forall>k. k \<noteq> i \<longrightarrow> (k \<in> set d' \<longleftrightarrow> k \<in> set d))
     \<and> set d \<subseteq> set d'"
  using assms
  by (auto simp: update_body_def lookup_def flip_def
      split: sum.splits prod.splits bool.splits if_splits)

lemma update_loop_frame:
  "update_loop tp cfg is (ps, d, p) = Inr (ps', d', p') \<Longrightarrow>
     length ps' = length ps \<and> p \<le> p'
     \<and> (\<forall>k. k \<notin> set is \<longrightarrow> ps' ! k = ps ! k \<and> (k \<in> set d' \<longleftrightarrow> k \<in> set d))
     \<and> set d \<subseteq> set d'"
proof (induction "is" arbitrary: ps d p)
  case Nil
  then show ?case by simp
next
  case (Cons i "is")
  from Cons.prems obtain ps1 d1 p1 where
    b: "update_body tp cfg i (ps, d, p) = Inr (ps1, d1, p1)"
    and l: "update_loop tp cfg is (ps1, d1, p1) = Inr (ps', d', p')"
    by (auto split: sum.splits)
  note f = update_body_frame [OF b]
  note g = Cons.IH [OF l]
  show ?case
  proof (intro conjI allI impI)
    show "length ps' = length ps" using f g by simp
    show "p \<le> p'" using f g by simp
    show "set d \<subseteq> set d'" using f g by blast
  next
    fix k assume k: "k \<notin> set (i # is)"
    then have "k \<noteq> i" "k \<notin> set is" by auto
    then show "ps' ! k = ps ! k" using f g by simp
    show "(k \<in> set d') = (k \<in> set d)" using f g \<open>k \<noteq> i\<close> \<open>k \<notin> set is\<close> by simp
  qed
qed

lemma update_loop_member:
  "update_loop tp cfg is (ps, d, p) = Inr (ps', d', p') \<Longrightarrow> distinct is \<Longrightarrow> i \<in> set is
   \<Longrightarrow> i \<notin> set d \<Longrightarrow>
     \<exists>ps0 d0 q ps1 d1 q1. update_body tp cfg i (ps0, d0, q) = Inr (ps1, d1, q1)
        \<and> ps0 ! i = ps ! i \<and> ps1 ! i = ps' ! i \<and> i \<notin> set d0 \<and> (i \<in> set d1 \<longleftrightarrow> i \<in> set d')
        \<and> p \<le> q \<and> q1 \<le> p'"
proof (induction "is" arbitrary: ps d p)
  case Nil
  then show ?case by simp
next
  case (Cons h "is")
  from Cons.prems(1) obtain ps1 d1 p1 where
    b: "update_body tp cfg h (ps, d, p) = Inr (ps1, d1, p1)"
    and l: "update_loop tp cfg is (ps1, d1, p1) = Inr (ps', d', p')"
    by (auto split: sum.splits)
  note f = update_body_frame [OF b]
  note g = update_loop_frame [OF l]
  show ?case
  proof (cases "h = i")
    case True
    then have "i \<notin> set is" using Cons.prems(2) by simp
    then have "ps' ! i = ps1 ! i" "i \<in> set d' \<longleftrightarrow> i \<in> set d1" using g by simp_all
    moreover have "p1 \<le> p'" using g by simp
    moreover have "update_body tp cfg i (ps, d, p) = Inr (ps1, d1, p1)" using b True by simp
    ultimately show ?thesis using Cons.prems(4)
      by (intro exI [of _ ps] exI [of _ d] exI [of _ p] exI [of _ ps1] exI [of _ d1]
          exI [of _ p1]) simp
  next
    case False
    then have i: "i \<in> set is" using Cons.prems(3) by simp
    have d: "distinct is" using Cons.prems(2) by simp
    have n: "i \<notin> set d1" using f False Cons.prems(4) by simp
    from Cons.IH [OF l d i n] obtain ps0 d0 q ps2 d2 q1 where
      r: "update_body tp cfg i (ps0, d0, q) = Inr (ps2, d2, q1)"
      "ps0 ! i = ps1 ! i" "ps2 ! i = ps' ! i" "i \<notin> set d0" "i \<in> set d2 \<longleftrightarrow> i \<in> set d'"
      "p1 \<le> q" "q1 \<le> p'"
      by blast
    have "ps0 ! i = ps ! i" using r(2) f False by simp
    moreover have "p \<le> q" using r(6) f by simp
    ultimately show ?thesis using r by blast
  qed
qed





section \<open>Frames and invariants of the run\<close>

subsection \<open>Population construction\<close>

lemma new_agents_all:
  "new_agents tp cfg g n p = (ps, p') \<Longrightarrow>
     length ps = n \<and> (\<forall>a\<in>set ps. state a = - 1 \<and> natural_immunity a = 0)"
proof (induction n arbitrary: p ps p')
  case 0
  then show ?case by simp
next
  case (Suc n)
  then show ?case by (auto split: prod.splits)
qed

lemma new_groups_all:
  "new_groups tp cfg ns g p = (ps, p') \<Longrightarrow>
     length ps = sum_list ns \<and> (\<forall>a\<in>set ps. state a = - 1 \<and> natural_immunity a = 0)"
proof (induction ns arbitrary: g p ps p')
  case Nil
  then show ?case by simp
next
  case (Cons n ns)
  from Cons.prems obtain grp p1 rest where
    a: "new_agents tp cfg (Some g) n p = (grp, p1)"
    and b: "new_groups tp cfg ns (Suc g) p1 = (rest, p')" and ps: "ps = grp @ rest"
    by (auto split: prod.splits)
  from new_agents_all [OF a] Cons.IH [OF b] ps show ?case by auto
qed

lemma infect_all_result:
  "infect_all tp cfg is (ps, p) = Inr (ps', p') \<Longrightarrow>
     length ps' = length ps \<and> p \<le> p' \<and> (\<forall>i\<in>set is. i < length ps)
     \<and> (\<forall>i\<in>set is. state (ps' ! i) = cfg_di cfg + cfg_de cfg + 1)
     \<and> (\<forall>k. k \<notin> set is \<longrightarrow> ps' ! k = ps ! k)
     \<and> (\<forall>k. natural_immunity (ps' ! k) = natural_immunity (ps ! k))"
proof (induction "is" arbitrary: ps p)
  case Nil
  then show ?case by simp
next
  case (Cons i "is")
  from Cons.prems obtain ps1 p1 where
    a: "infect tp cfg ps i p = Inr (ps1, p1)"
    and b: "infect_all tp cfg is (ps1, p1) = Inr (ps', p')"
    by (auto split: sum.splits)
  note f = infect_result [OF a]
  note g = Cons.IH [OF b]
  have st: "\<forall>j\<in>set (i # is). state (ps' ! j) = cfg_di cfg + cfg_de cfg + 1"
  proof
    fix j assume "j \<in> set (i # is)"
    then show "state (ps' ! j) = cfg_di cfg + cfg_de cfg + 1"
      using f g by (cases "j \<in> set is") auto
  qed
  have ni: "\<forall>k. natural_immunity (ps' ! k) = natural_immunity (ps ! k)"
  proof
    fix k show "natural_immunity (ps' ! k) = natural_immunity (ps ! k)"
      using f g by (cases "k = i") auto
  qed
  show ?case using f g st ni by auto
qed

lemma binnedSample_distinct:
  "binnedSample tp p k N = Inr (S, p') \<Longrightarrow> distinct S"
  by (auto simp: binnedSample_def split: arg.splits sum.splits if_splits)

lemma newPop_result:
  assumes "newPop tp p cfg = Inr (ps, infs, p')"
  shows "distinct infs \<and> (\<forall>i\<in>set infs. i < length ps)
     \<and> (\<forall>i<length ps. natural_immunity (ps ! i) = 0)
     \<and> (\<forall>i<length ps. state (ps ! i) = (if i \<in> set infs then cfg_di cfg + cfg_de cfg + 1 else - 1))"
proof -
  from assms obtain ps0 p1 p2 where
    mk: "(case cfg_N cfg of TupV Ns \<Rightarrow> new_groups tp cfg Ns 0 p
            | IntV n \<Rightarrow> new_agents tp cfg None n p) = (ps0, p1)"
    and bs: "binnedSample tp p1 (cfg_I cfg) (cfg_N cfg) = Inr (infs, p2)"
    and ia: "infect_all tp cfg infs (ps0, p2) = Inr (ps, p')"
    by (auto simp: newPop_def split: prod.splits sum.splits)
  have all0: "\<forall>a\<in>set ps0. state a = - 1 \<and> natural_immunity a = 0"
    using mk new_groups_all new_agents_all by (cases "cfg_N cfg") auto
  note r = infect_all_result [OF ia]
  have d: "distinct infs" using bs by (rule binnedSample_distinct)
  have ni: "\<forall>i<length ps. natural_immunity (ps ! i) = 0"
    using r all0 by simp
  have st: "\<forall>i<length ps. state (ps ! i)
      = (if i \<in> set infs then cfg_di cfg + cfg_de cfg + 1 else - 1)"
    using r all0 by simp
  show ?thesis using d r ni st by simp
qed

lemma init_result:
  assumes "init tp cfg = Inr s"
  shows "distinct (inf_set s) \<and> (\<forall>i\<in>set (inf_set s). i < length (pop s))
     \<and> (\<forall>i<length (pop s). natural_immunity (pop s ! i) = 0)
     \<and> (\<forall>i<length (pop s). state (pop s ! i)
           = (if i \<in> set (inf_set s) then cfg_di cfg + cfg_de cfg + 1 else - 1))
     \<and> newinf s = [] \<and> totinf s = int (length (inf_set s)) \<and> ever_infected s = inf_set s
     \<and> curve s = [length (inf_set s)]"
proof -
  from assms obtain ps infs p where n: "newPop tp 0 cfg = Inr (ps, infs, p)"
    and s: "s = \<lparr>pop = ps, inf_set = infs, newinf = [], totinf = int (length infs),
               ever_infected = infs, curve = [length infs], pos = p\<rparr>"
    by (auto simp: init_def split: sum.splits)
  from newPop_result [OF n] s show ?thesis by simp
qed

subsection \<open>update\<close>

lemma immunity_step:
  assumes "n \<le> 9 / 10" and "m = min (9 / 10) (n + random tp q * (1 / 2))"
  shows "n \<le> m \<and> m \<le> 9 / 10"
proof -
  have "n \<le> n + random tp q * (1 / 2)" using random_ge0 [of tp q] by simp
  then have "n \<le> min (9 / 10) (n + random tp q * (1 / 2))" using assms(1) by (rule_tac min.boundedI)
  moreover have "min (9 / 10) (n + random tp q * (1 / 2)) \<le> 9 / 10" by (rule min.cobounded1)
  ultimately show ?thesis using assms(2) by simp
qed

lemma update_body_agent:
  assumes "update_body tp cfg i (ps, d, p) = Inr (ps', d', p')"
  shows "(state (ps ! i) = 1 \<longrightarrow> state (ps' ! i) \<le> 0 \<and> i \<in> set d')
     \<and> (1 < state (ps ! i) \<longrightarrow> state (ps' ! i) = state (ps ! i) - 1 \<and> d' = d)
     \<and> (state (ps ! i) \<le> 0 \<longrightarrow> ps' = ps \<and> d' = d)
     \<and> (natural_immunity (ps ! i) \<le> 9 / 10 \<longrightarrow>
          natural_immunity (ps ! i) \<le> natural_immunity (ps' ! i)
          \<and> natural_immunity (ps' ! i) \<le> 9 / 10)"
proof -
  from assms have i: "i < length ps" and lk: "lookup ps i = Inr (ps ! i)"
    by (auto simp: update_body_def lookup_def split: sum.splits if_splits)
  consider (last) "state (ps ! i) = 1" "random tp p \<le> 1 - cfg_rp cfg"
    | (rec) "state (ps ! i) = 1" "\<not> random tp p \<le> 1 - cfg_rp cfg"
    | (dec) "1 < state (ps ! i)" | (none) "state (ps ! i) \<le> 0" by linarith
  then show ?thesis
  proof cases
    case last
    then have ps': "ps' = ps[i := (ps ! i)\<lparr>state := - 1, natural_immunity :=
        min (9 / 10) (natural_immunity (ps ! i) + random tp (Suc p) * (1 / 2))\<rparr>]"
      and d': "d' = List.insert i d"
      using assms lk by (simp_all add: update_body_def flip_def)
    have m: "natural_immunity (ps' ! i)
        = min (9 / 10) (natural_immunity (ps ! i) + random tp (Suc p) * (1 / 2))"
      using ps' i by simp
    have "natural_immunity (ps ! i) \<le> 9 / 10 \<longrightarrow>
          natural_immunity (ps ! i) \<le> natural_immunity (ps' ! i)
          \<and> natural_immunity (ps' ! i) \<le> 9 / 10"
      using immunity_step [OF _ m] by blast
    moreover have "state (ps' ! i) = - 1" using ps' i by simp
    ultimately show ?thesis using last(1) d' by simp
  next
    case rec
    then have ps': "ps' = ps[i := (ps ! i)\<lparr>state := 0\<rparr>]" and d': "d' = List.insert i d"
      using assms lk by (simp_all add: update_body_def flip_def)
    then show ?thesis using rec(1) i by simp
  next
    case dec
    then show ?thesis using assms lk i by (auto simp: update_body_def)
  next
    case none
    then show ?thesis using assms lk i by (auto simp: update_body_def)
  qed
qed

lemma update_loop_valid:
  "update_loop tp cfg is (ps, d, p) = Inr (ps', d', p') \<Longrightarrow> \<forall>i\<in>set is. i < length ps"
proof (induction "is" arbitrary: ps d p)
  case Nil
  then show ?case by simp
next
  case (Cons i "is")
  from Cons.prems obtain ps1 d1 p1 where
    b: "update_body tp cfg i (ps, d, p) = Inr (ps1, d1, p1)"
    and l: "update_loop tp cfg is (ps1, d1, p1) = Inr (ps', d', p')"
    by (auto split: sum.splits)
  from update_body_frame [OF b] Cons.IH [OF l] show ?case by simp
qed

lemma update_states:
  assumes run: "update tp p ps infs cfg = Inr (ps', infs', p')" and dist: "distinct infs"
  shows "length ps' = length ps \<and> p \<le> p' \<and> distinct infs' \<and> set infs' \<subseteq> set infs
     \<and> (\<forall>k. k \<notin> set infs \<longrightarrow> ps' ! k = ps ! k)
     \<and> (\<forall>i\<in>set infs. i < length ps
           \<and> (state (ps ! i) = 1 \<longrightarrow> state (ps' ! i) \<le> 0 \<and> i \<notin> set infs')
           \<and> (1 < state (ps ! i) \<longrightarrow> state (ps' ! i) = state (ps ! i) - 1 \<and> i \<in> set infs')
           \<and> (state (ps ! i) \<le> 0 \<longrightarrow> ps' ! i = ps ! i \<and> i \<in> set infs')
           \<and> (natural_immunity (ps ! i) \<le> 9 / 10 \<longrightarrow>
                natural_immunity (ps ! i) \<le> natural_immunity (ps' ! i)
                \<and> natural_immunity (ps' ! i) \<le> 9 / 10))"
proof -
  from run obtain d where l: "update_loop tp cfg infs (ps, [], p) = Inr (ps', d, p')"
    and infs': "infs' = filter (\<lambda>i. i \<notin> set d) infs"
    by (auto simp: update_def split: sum.splits)
  note f = update_loop_frame [OF l]
  note v = update_loop_valid [OF l]
  have each: "\<forall>i\<in>set infs. i < length ps
           \<and> (state (ps ! i) = 1 \<longrightarrow> state (ps' ! i) \<le> 0 \<and> i \<notin> set infs')
           \<and> (1 < state (ps ! i) \<longrightarrow> state (ps' ! i) = state (ps ! i) - 1 \<and> i \<in> set infs')
           \<and> (state (ps ! i) \<le> 0 \<longrightarrow> ps' ! i = ps ! i \<and> i \<in> set infs')
           \<and> (natural_immunity (ps ! i) \<le> 9 / 10 \<longrightarrow>
                natural_immunity (ps ! i) \<le> natural_immunity (ps' ! i)
                \<and> natural_immunity (ps' ! i) \<le> 9 / 10)"
  proof
    fix i assume mem: "i \<in> set infs"
    have nd: "i \<notin> set []" by simp
    from update_loop_member [OF l dist mem nd] obtain ps0 d0 q ps1 d1 q1 where
      r: "update_body tp cfg i (ps0, d0, q) = Inr (ps1, d1, q1)"
      "ps0 ! i = ps ! i" "ps1 ! i = ps' ! i" "i \<notin> set d0" "i \<in> set d1 \<longleftrightarrow> i \<in> set d"
      by auto
    note b = update_body_agent [OF r(1)]
    have in': "i \<in> set infs' \<longleftrightarrow> i \<notin> set d1" using infs' mem r(5) by simp
    show "i < length ps
           \<and> (state (ps ! i) = 1 \<longrightarrow> state (ps' ! i) \<le> 0 \<and> i \<notin> set infs')
           \<and> (1 < state (ps ! i) \<longrightarrow> state (ps' ! i) = state (ps ! i) - 1 \<and> i \<in> set infs')
           \<and> (state (ps ! i) \<le> 0 \<longrightarrow> ps' ! i = ps ! i \<and> i \<in> set infs')
           \<and> (natural_immunity (ps ! i) \<le> 9 / 10 \<longrightarrow>
                natural_immunity (ps ! i) \<le> natural_immunity (ps' ! i)
                \<and> natural_immunity (ps' ! i) \<le> 9 / 10)"
      using b r(2,3,4) in' v mem by auto
  qed
  have "distinct infs'" "set infs' \<subseteq> set infs" using infs' dist by auto
  then show ?thesis using f each by simp
qed

subsection \<open>The phases of a day\<close>

lemma begin_day_result:
  assumes "begin_day tp cfg s = Inr s'"
  shows "update tp (pos s) (pop s) (inf_set s) cfg = Inr (pop s', inf_set s', pos s')
     \<and> newinf s' = newinf s \<and> totinf s' = totinf s \<and> ever_infected s' = ever_infected s
     \<and> curve s' = curve s @ [length (inf_set s')]"
  using assms by (auto simp: begin_day_def split: sum.splits)

lemma contact_step_frame:
  assumes "contact_step tp cfg i j s = Inr s'"
  shows "inf_set s' = inf_set s \<and> curve s' = curve s \<and> length (pop s') = length (pop s)
     \<and> pos s \<le> pos s'
     \<and> (pop s' = pop s \<and> newinf s' = newinf s \<and> totinf s' = totinf s
          \<and> ever_infected s' = ever_infected s
         \<or> j < length (pop s) \<and> state (pop s ! j) = - 1
          \<and> state (pop s' ! j) = cfg_di cfg + cfg_de cfg + 1
          \<and> natural_immunity (pop s' ! j) = natural_immunity (pop s ! j)
          \<and> (\<forall>k. k \<noteq> j \<longrightarrow> pop s' ! k = pop s ! k)
          \<and> newinf s' = List.insert j (newinf s) \<and> totinf s' = totinf s + 1
          \<and> ever_infected s' = List.insert j (ever_infected s))"
proof -
  from assms obtain b p where t: "transmits tp cfg (pop s) i j (pos s) = Inr (b, p)"
    by (auto simp: contact_step_def split: sum.splits)
  note tp = transmits_pos [OF t]
  show ?thesis
  proof (cases b)
    case True
    with assms t obtain ps' p' where inf: "infect tp cfg (pop s) j p = Inr (ps', p')"
      and s': "s' = s\<lparr>pop := ps', newinf := List.insert j (newinf s),
                      totinf := totinf s + 1,
                      ever_infected := List.insert j (ever_infected s), pos := p'\<rparr>"
      by (auto simp: contact_step_def split: sum.splits)
    from t True have "j < length (pop s) \<and> state (pop s ! j) = - 1"
      using transmits_True_state by simp
    then show ?thesis using infect_result [OF inf] s' tp by simp
  next
    case False
    with assms t have "s' = s\<lparr>pos := p\<rparr>"
      by (auto simp: contact_step_def split: sum.splits)
    then show ?thesis using tp by simp
  qed
qed

lemma fold_insert_set: "set (fold List.insert xs ys) = set xs \<union> set ys"
  by (induction xs arbitrary: ys) auto

lemma fold_insert_distinct: "distinct ys \<Longrightarrow> distinct (fold List.insert xs ys)"
  by (induction xs arbitrary: ys) auto

subsection \<open>The infected set and the states\<close>

lemma step_inv_sets:
  assumes step: "sim_step tp cfg (pt, s) (pt', s')" and inv: "inv_sets pt s"
    and dur: "0 \<le> cfg_di cfg + cfg_de cfg"
  shows "inv_sets pt' s'"
  using step
proof (cases rule: sim_step.cases)
  case (st_update r)
  from begin_day_result [OF st_update(4)]
  have u: "update tp (pos s) (pop s) (inf_set s) cfg = Inr (pop s', inf_set s', pos s')" by simp
  have d: "distinct (inf_set s)" and eq: "set (inf_set s) = infected_indices s"
    using inv st_update(1) by (simp_all add: inv_sets_def)
  note us = update_states [OF u d]
  have "set (inf_set s') = infected_indices s'"
  proof (rule set_eqI)
    fix k
    show "k \<in> set (inf_set s') \<longleftrightarrow> k \<in> infected_indices s'"
    proof (cases "k \<in> set (inf_set s)")
      case True
      then have "0 < state (pop s ! k)" "k < length (pop s)"
        using eq by (simp_all add: infected_indices_def)
      then consider "state (pop s ! k) = 1" | "1 < state (pop s ! k)" by linarith
      then show ?thesis
      proof cases
        case 1
        then show ?thesis using us True by (auto simp: infected_indices_def)
      next
        case 2
        then show ?thesis using us True \<open>k < length (pop s)\<close>
          by (auto simp: infected_indices_def)
      qed
    next
      case False
      then have "k \<notin> set (inf_set s')" using us by blast
      moreover have "pop s' ! k = pop s ! k" using us False by simp
      moreover have "k \<notin> infected_indices s" using False eq by simp
      ultimately show ?thesis using us by (simp add: infected_indices_def)
    qed
  qed
  then show ?thesis using us st_update(2) by (simp add: inv_sets_def)
next
  case (st_scan r)
  then show ?thesis using inv by (simp add: inv_sets_def infected_indices_def)
next
  case (st_sample i js p r "is")
  then show ?thesis using inv by (simp add: inv_sets_def infected_indices_def)
next
  case (st_contact i j r js "is")
  note f = contact_step_frame [OF st_contact(3)]
  have d: "distinct (inf_set s)"
    and eq: "set (inf_set s) \<union> set (newinf s) = infected_indices s"
    using inv st_contact(1) by (simp_all add: inv_sets_def)
  from f consider (same) "pop s' = pop s" "newinf s' = newinf s"
    | (new) "j < length (pop s)" "state (pop s ! j) = - 1"
      "state (pop s' ! j) = cfg_di cfg + cfg_de cfg + 1"
      "\<forall>k. k \<noteq> j \<longrightarrow> pop s' ! k = pop s ! k" "newinf s' = List.insert j (newinf s)"
    by blast
  then have "set (inf_set s') \<union> set (newinf s') = infected_indices s'"
  proof cases
    case same
    then show ?thesis using f eq by (simp add: infected_indices_def)
  next
    case new
    have "infected_indices s' = insert j (infected_indices s)"
    proof (rule set_eqI)
      fix k show "k \<in> infected_indices s' \<longleftrightarrow> k \<in> insert j (infected_indices s)"
        using new f dur by (cases "k = j") (auto simp: infected_indices_def)
    qed
    then show ?thesis using new f eq by auto
  qed
  then show ?thesis using f d st_contact(2) by (simp add: inv_sets_def)
next
  case (st_next r i "is")
  then show ?thesis using inv by (simp add: inv_sets_def)
next
  case (st_merge r)
  then show ?thesis using inv
    by (simp add: inv_sets_def infected_indices_def fold_insert_set fold_insert_distinct Un_commute)
qed

lemma init_inv_sets:
  assumes "init tp cfg = Inr s" and "0 \<le> cfg_di cfg + cfg_de cfg"
  shows "inv_sets (Head 0) s"
proof -
  note r = init_result [OF assms(1)]
  have "set (inf_set s) = infected_indices s"
  proof (rule set_eqI)
    fix k show "k \<in> set (inf_set s) \<longleftrightarrow> k \<in> infected_indices s"
      using r assms(2) by (cases "k < length (pop s)") (auto simp: infected_indices_def)
  qed
  then show ?thesis using r by (simp add: inv_sets_def)
qed

lemma steps_inv_sets:
  assumes "(sim_step tp cfg)\<^sup>*\<^sup>* x y" and "inv_sets (fst x) (snd x)"
    and "0 \<le> cfg_di cfg + cfg_de cfg"
  shows "inv_sets (fst y) (snd y)"
  using assms
proof (induction rule: rtranclp_induct)
  case base
  then show ?case by simp
next
  case (step y z)
  then have "inv_sets (fst y) (snd y)" by simp
  moreover have "sim_step tp cfg (fst y, snd y) (fst z, snd z)" using step.hyps(2) by simp
  ultimately show ?case using step.prems(2) by (rule_tac step_inv_sets)
qed

section \<open>Protections of effectiveness zero\<close>

text \<open>
  Claim C9 says that an agent with \<open>vaccine = 0\<close>, \<open>mask = 0\<close>, \<open>natural_immunity = 0\<close>
  and \<open>state = -1\<close> is susceptible on every random stream. On a stream whose next draw is
  exactly \<open>0.0\<close>, \<open>flip(0)\<close> is \<open>0.0 <= 0\<close>, which holds: the vaccine of effectiveness zero
  blocks and \<open>susceptible\<close> returns \<open>False\<close>.
\<close>

theorem susceptible_zero_draw:
  "flip tape_zero 0 0 = (True, 1)
   \<and> susceptible tape_zero [agent_plain] 0 0 = Inr (False, 1)"
  by (simp add: susceptible_def lookup_def flip_def random_def tape_zero_def agent_plain_def)

section \<open>The infected index set\<close>

lemma init_cfg_w: "init tape_half cfg_w = Inr state_i"
  by (simp add: init_def newPop_def binnedSample_def sample_def infect_def helper_def lookup_def
      flip_def random_def tape_half_def cfg_w_def state_i_def agent_plain_def
      new_agents_numeral pick_numeral)

lemma reachable_init: "init tp cfg = Inr s \<Longrightarrow> reachable tp cfg (Head 0, s)"
  by (auto simp: reachable_def)

lemma reachable_step:
  "reachable tp cfg x \<Longrightarrow> sim_step tp cfg x y \<Longrightarrow> reachable tp cfg y"
  by (auto simp: reachable_def intro: rtranclp.rtrancl_into_rtrancl)

lemma reachable_steps:
  "reachable tp cfg x \<Longrightarrow> (sim_step tp cfg)\<^sup>*\<^sup>* x y \<Longrightarrow> reachable tp cfg y"
  by (auto simp: reachable_def)

text \<open>
  Claim C3. At every day boundary of the simulation loop (the loop head: after population
  creation and after each end-of-day merge; and the point after each call to \<open>update\<close>)
  the infected index set is exactly the set of indices \<open>i\<close> with \<open>state[i] > 0\<close>. The
  durations are those of a configuration: \<open>di + de\<close> is not negative.
\<close>

theorem infected_set_invariant:
  assumes "reachable tp cfg (pt, s)" and "boundary pt"
    and "0 \<le> cfg_di cfg + cfg_de cfg"
  shows "set (inf_set s) = {i. i < length (pop s) \<and> 0 < state (pop s ! i)}
     \<and> distinct (inf_set s)"
proof -
  from assms(1) obtain s0 where i: "init tp cfg = Inr s0"
    and st: "(sim_step tp cfg)\<^sup>*\<^sup>* (Head 0, s0) (pt, s)"
    by (auto simp: reachable_def)
  have "inv_sets (fst (Head 0, s0)) (snd (Head 0, s0))"
    using init_inv_sets [OF i assms(3)] by simp
  with st have "inv_sets (fst (pt, s)) (snd (pt, s))" using assms(3) by (rule steps_inv_sets)
  then show ?thesis using assms(2) by (simp add: inv_sets_def infected_indices_def)
qed

theorem infected_set_invariant_witness:
  "init tape_half cfg_w = Inr state_i
   \<and> set (inf_set state_i) = {i. i < length (pop state_i) \<and> 0 < state (pop state_i ! i)}
   \<and> distinct (inf_set state_i)"
proof -
  have r: "reachable tape_half cfg_w (Head 0, state_i)"
    using init_cfg_w by (rule reachable_init)
  have b: "boundary (Head 0)" by simp
  have d: "0 \<le> cfg_di cfg_w + cfg_de cfg_w" by (simp add: cfg_w_def)
  show ?thesis using infected_set_invariant [OF r b d] init_cfg_w by simp
qed

section \<open>The loops of sim and the step relation\<close>

subsection \<open>The loops of sim as runs of steps\<close>

lemma contacts_loop_steps:
  "contacts_loop tp cfg i js s = Inr s' \<Longrightarrow>
     (sim_step tp cfg)\<^sup>*\<^sup>* (Contacts r i js is, s) (Contacts r i [] is, s')"
proof (induction js arbitrary: s)
  case Nil
  then show ?case by simp
next
  case (Cons j js)
  from Cons.prems obtain s1 where c: "contact_step tp cfg i j s = Inr s1"
    and l: "contacts_loop tp cfg i js s1 = Inr s'"
    by (auto split: sum.splits)
  have "sim_step tp cfg (Contacts r i (j # js) is, s) (Contacts r i js is, s1)"
    using c by (rule st_contact)
  then show ?case using Cons.IH [OF l] by (rule converse_rtranclp_into_rtranclp)
qed

lemma agent_step_steps:
  assumes "agent_step tp cfg i s = Inr s'"
  shows "(sim_step tp cfg)\<^sup>*\<^sup>* (Scan r (i # is), s) (Scan r is, s')"
proof -
  from assms obtain js p where a: "interactions tp cfg (pop s) i (pos s) = Inr (js, p)"
    and l: "contacts_loop tp cfg i js (s\<lparr>pos := p\<rparr>) = Inr s'"
    by (auto simp: agent_step_def split: sum.splits)
  have 1: "sim_step tp cfg (Scan r (i # is), s) (Contacts r i js is, s\<lparr>pos := p\<rparr>)"
    using a by (rule st_sample)
  have 2: "(sim_step tp cfg)\<^sup>*\<^sup>* (Contacts r i js is, s\<lparr>pos := p\<rparr>) (Contacts r i [] is, s')"
    using l by (rule contacts_loop_steps)
  have 3: "sim_step tp cfg (Contacts r i [] is, s') (Scan r is, s')" by (rule st_next)
  from 1 2 3 show ?thesis
    by (meson converse_rtranclp_into_rtranclp rtranclp.rtrancl_into_rtrancl)
qed

lemma scan_steps:
  "scan tp cfg is s = Inr s' \<Longrightarrow> (sim_step tp cfg)\<^sup>*\<^sup>* (Scan r is, s) (Scan r [], s')"
proof (induction "is" arbitrary: s)
  case Nil
  then show ?case by simp
next
  case (Cons i "is")
  from Cons.prems obtain s1 where a: "agent_step tp cfg i s = Inr s1"
    and l: "scan tp cfg is s1 = Inr s'"
    by (auto split: sum.splits)
  from agent_step_steps [OF a] Cons.IH [OF l] show ?case by (rule rtranclp_trans)
qed

lemma transmission_steps:
  assumes "last (curve s) \<noteq> 0" and "transmission tp cfg s = Inr s'"
  shows "(sim_step tp cfg)\<^sup>*\<^sup>* (Updated r, s) (Head (r + 1), s')"
proof -
  from assms(2) obtain s1 where sc: "scan tp cfg (inf_set s) (s\<lparr>newinf := []\<rparr>) = Inr s1"
    and s': "s' = s1\<lparr>inf_set := fold List.insert (newinf s1) (inf_set s1)\<rparr>"
    by (auto simp: transmission_def split: sum.splits)
  have 1: "sim_step tp cfg (Updated r, s) (Scan r (inf_set s), s\<lparr>newinf := []\<rparr>)"
    using assms(1) by (rule st_scan)
  have 2: "(sim_step tp cfg)\<^sup>*\<^sup>* (Scan r (inf_set s), s\<lparr>newinf := []\<rparr>) (Scan r [], s1)"
    using sc by (rule scan_steps)
  have 3: "sim_step tp cfg (Scan r [], s1) (Head (r + 1), s')"
    unfolding s' by (rule st_merge)
  from 1 2 3 show ?thesis
    by (meson converse_rtranclp_into_rtranclp rtranclp.rtrancl_into_rtrancl)
qed

lemma sim_loop_reach:
  "sim_loop tp cfg r s = Inr rep \<Longrightarrow> reachable tp cfg (Head r, s) \<Longrightarrow>
     \<exists>r' s'. (reachable tp cfg (Updated r', s') \<and> last (curve s') = 0
                \<and> finalize Extinguished s' = Inr rep)
            \<or> (reachable tp cfg (Head r', s') \<and> \<not> r' < cfg_max cfg
                \<and> finalize Persists s' = Inr rep)"
proof (induction tp cfg r s rule: sim_loop.induct)
  case (1 tp cfg rounds s)
  show ?case
  proof (cases "rounds < cfg_max cfg")
    case False
    then have "finalize Persists s = Inr rep" using "1.prems"(1) by simp
    then show ?thesis using False "1.prems"(2) by blast
  next
    case True
    with "1.prems"(1) obtain s1 where b: "begin_day tp cfg s = Inr s1"
      by (auto split: sum.splits)
    have "sim_step tp cfg (Head rounds, s) (Updated rounds, s1)"
      using True b by (rule st_update)
    with "1.prems"(2) have r1: "reachable tp cfg (Updated rounds, s1)"
      by (rule reachable_step)
    show ?thesis
    proof (cases "last (curve s1) = 0")
      case z: True
      then have "finalize Extinguished s1 = Inr rep" using "1.prems"(1) True b by simp
      then show ?thesis using r1 z by blast
    next
      case nz: False
      with "1.prems"(1) True b obtain s2 where t: "transmission tp cfg s1 = Inr s2"
        and l: "sim_loop tp cfg (rounds + 1) s2 = Inr rep"
        by (auto split: sum.splits)
      have "reachable tp cfg (Head (rounds + 1), s2)"
        using r1 transmission_steps [OF nz t] by (rule reachable_steps)
      with "1.IH" [OF True b nz t l] show ?thesis by simp
    qed
  qed
qed

lemma sim_reach:
  assumes "sim tp cfg = Inr rep"
  shows "\<exists>pt s. reachable tp cfg (pt, s) \<and> (\<exists>oc. finalize oc s = Inr rep)"
proof -
  from assms obtain s0 where i: "init tp cfg = Inr s0"
    and l: "sim_loop tp cfg 0 s0 = Inr rep"
    by (auto simp: sim_def split: sum.splits)
  from sim_loop_reach [OF l reachable_init [OF i]] show ?thesis by blast
qed

subsection \<open>The order of the control points\<close>

lemma step_rank: "sim_step tp cfg x y \<Longrightarrow> rank (fst x) \<le> rank (fst y)"
  by (induction rule: sim_step.induct) simp_all

lemma steps_rank: "(sim_step tp cfg)\<^sup>*\<^sup>* x y \<Longrightarrow> rank (fst x) \<le> rank (fst y)"
proof (induction rule: rtranclp_induct)
  case base
  then show ?case by simp
next
  case (step y z)
  then show ?case using step_rank [of tp cfg y z] by simp
qed

lemma rank_scanning: "rank pt = 3 * r + 2 \<longleftrightarrow> scanning r pt"
  by (cases pt) (simp_all, presburger+)

lemma rank_updated: "rank pt = 3 * r + 1 \<longleftrightarrow> pt = Updated r"
  by (cases pt) (simp_all, presburger+)

section \<open>Runs that return\<close>

lemma sample_range_ok:
  assumes "0 \<le> k" and "k \<le> int n"
  shows "\<exists>xs p'. sample tp p [0..<n] k = Inr (xs, p') \<and> distinct xs \<and> (\<forall>x\<in>set xs. x < n)"
proof -
  have "k \<le> int (length [0..<n])" using assms(2) by simp
  from sample_ok [OF assms(1) this, of tp p]
  obtain xs where "sample tp p [0..<n] k = Inr (xs, p + nat k)" "distinct xs"
    "set xs \<subseteq> set [0..<n]"
    by auto
  then show ?thesis by auto
qed

lemma randint_range:
  assumes "0 \<le> m"
  shows "\<exists>k. randint tp p 0 m = Inr (k, Suc p) \<and> 0 \<le> k \<and> k \<le> m"
proof -
  let ?x = "random tp p * real_of_int (m + 1)"
  have pos: "0 < real_of_int (m + 1)" using assms by simp
  have ge: "0 \<le> ?x" using random_ge0 [of tp p] assms by simp
  have "?x < 1 * real_of_int (m + 1)"
    using random_lt1 [of tp p] pos by (rule mult_strict_right_mono)
  then have "?x < real_of_int (m + 1)" by simp
  then have "\<lfloor>?x\<rfloor> < m + 1" by (rule_tac floor_less_iff [THEN iffD2])
  moreover have "0 \<le> \<lfloor>?x\<rfloor>" using ge by simp
  ultimately show ?thesis using assms by (simp add: randint_def)
qed

lemma infect_all_ok:
  "\<forall>i\<in>set is. i < length ps \<Longrightarrow> \<exists>ps' p'. infect_all tp cfg is (ps, p) = Inr (ps', p')"
proof (induction "is" arbitrary: ps p)
  case Nil
  then show ?case by simp
next
  case (Cons i "is")
  then have "i < length ps" by simp
  from infect_ok [OF this, of tp cfg p] obtain ps1 p1 where a: "infect tp cfg ps i p = Inr (ps1, p1)"
    by blast
  have "length ps1 = length ps" using infect_result [OF a] by simp
  then have "\<forall>k\<in>set is. k < length ps1" using Cons.prems by simp
  from Cons.IH [OF this, of p1] show ?case using a by simp
qed

lemma infect_all_sociso:
  "infect_all tp cfg is (ps, p) = Inr (ps', p') \<Longrightarrow> \<forall>i\<in>set is. sociso (ps' ! i) \<noteq> None"
proof (induction "is" arbitrary: ps p)
  case Nil
  then show ?case by simp
next
  case (Cons i "is")
  from Cons.prems obtain ps1 p1 where
    a: "infect tp cfg ps i p = Inr (ps1, p1)"
    and b: "infect_all tp cfg is (ps1, p1) = Inr (ps', p')"
    by (auto split: sum.splits)
  note f = infect_result [OF a]
  note g = infect_all_result [OF b]
  have "sociso (ps' ! i) \<noteq> None"
  proof (cases "i \<in> set is")
    case True
    then show ?thesis using Cons.IH [OF b] by simp
  next
    case False
    then have "ps' ! i = ps1 ! i" using g by simp
    then show ?thesis using f by simp
  qed
  then show ?case using Cons.IH [OF b] by simp
qed

lemma init_flat_ok:
  assumes "cfg_N cfg = IntV n" and "cfg_I cfg = IntV k" and "0 \<le> k" and "k \<le> int n"
  shows "\<exists>s. init tp cfg = Inr s \<and> well_formed s \<and> length (pop s) = n"
proof -
  obtain ps0 p1 where mk: "new_agents tp cfg None n 0 = (ps0, p1)" by fastforce
  then have len0: "length ps0 = n" using new_agents_all by blast
  from sample_range_ok [OF assms(3,4), of tp p1] obtain xs p2 where
    sm: "sample tp p1 [0..<n] k = Inr (xs, p2)" and d: "distinct xs" and v: "\<forall>x\<in>set xs. x < n"
    by blast
  have bs: "binnedSample tp p1 (cfg_I cfg) (cfg_N cfg) = Inr (xs, p2)"
    using sm d assms(1,2) by (simp add: binnedSample_def)
  have "\<forall>i\<in>set xs. i < length ps0" using v len0 by simp
  from infect_all_ok [OF this, of tp cfg p2] obtain ps p3 where
    ia: "infect_all tp cfg xs (ps0, p2) = Inr (ps, p3)" by blast
  have np: "newPop tp 0 cfg = Inr (ps, xs, p3)"
    using mk bs ia assms(1) by (simp add: newPop_def)
  have len: "length ps = n" using infect_all_result [OF ia] len0 by simp
  have so: "\<forall>i\<in>set xs. sociso (ps ! i) \<noteq> None" using ia by (rule infect_all_sociso)
  show ?thesis using np len so v by (simp add: init_def well_formed_def)
qed

lemma update_body_ok:
  assumes "i < length ps"
  shows "\<exists>ps' d' p'. update_body tp cfg i (ps, d, p) = Inr (ps', d', p')
     \<and> (\<forall>k. sociso (ps' ! k) = sociso (ps ! k))"
proof -
  have lk: "lookup ps i = Inr (ps ! i)" using assms by (simp add: lookup_def)
  have "\<And>a. sociso ((ps[i := a]) ! k) = (if k = i then sociso a else sociso (ps ! k))" for k
    using assms by (simp add: nth_list_update)
  then show ?thesis using lk
    by (auto simp: update_body_def flip_def split: bool.splits)
qed

lemma update_loop_ok:
  "\<forall>i\<in>set is. i < length ps \<Longrightarrow>
     \<exists>ps' d' p'. update_loop tp cfg is (ps, d, p) = Inr (ps', d', p')
       \<and> length ps' = length ps \<and> (\<forall>k. sociso (ps' ! k) = sociso (ps ! k))"
proof (induction "is" arbitrary: ps d p)
  case Nil
  then show ?case by simp
next
  case (Cons i "is")
  then have "i < length ps" by simp
  from update_body_ok [OF this, of tp cfg d p] obtain ps1 d1 p1 where
    b: "update_body tp cfg i (ps, d, p) = Inr (ps1, d1, p1)"
    and so: "\<forall>k. sociso (ps1 ! k) = sociso (ps ! k)"
    by blast
  have len: "length ps1 = length ps" using update_body_frame [OF b] by simp
  then have "\<forall>k\<in>set is. k < length ps1" using Cons.prems by simp
  from Cons.IH [OF this, of d1 p1] obtain ps' d' p' where
    l: "update_loop tp cfg is (ps1, d1, p1) = Inr (ps', d', p')"
    "length ps' = length ps1" "\<forall>k. sociso (ps' ! k) = sociso (ps1 ! k)"
    by blast
  then show ?case using b so len by simp
qed

lemma begin_day_ok:
  assumes "well_formed s"
  shows "\<exists>s1. begin_day tp cfg s = Inr s1 \<and> well_formed s1 \<and> length (pop s1) = length (pop s)"
proof -
  have "\<forall>i\<in>set (inf_set s). i < length (pop s)" using assms by (simp add: well_formed_def)
  from update_loop_ok [OF this, of tp cfg "[]" "pos s"] obtain ps' d' p' where
    l: "update_loop tp cfg (inf_set s) (pop s, [], pos s) = Inr (ps', d', p')"
    "length ps' = length (pop s)" "\<forall>k. sociso (ps' ! k) = sociso (pop s ! k)"
    by blast
  let ?s1 = "s\<lparr>pop := ps', inf_set := filter (\<lambda>i. i \<notin> set d') (inf_set s),
      curve := curve s @ [length (filter (\<lambda>i. i \<notin> set d') (inf_set s))], pos := p'\<rparr>"
  have "begin_day tp cfg s = Inr ?s1" using l(1) by (simp add: begin_day_def update_def)
  moreover have "well_formed ?s1" using assms l(2,3) by (auto simp: well_formed_def)
  moreover have "length (pop ?s1) = length (pop s)" using l(2) by simp
  ultimately show ?thesis by blast
qed

lemma transmits_ok:
  assumes "i < length ps" and "j < length ps" and "sociso (ps ! i) \<noteq> None"
  shows "\<exists>b p'. transmits tp cfg ps i j p = Inr (b, p')"
proof -
  have lk: "lookup ps i = Inr (ps ! i)" "lookup ps j = Inr (ps ! j)"
    using assms by (simp_all add: lookup_def)
  obtain si where si: "sociso (ps ! i) = Some si" using assms(3) by blast
  have "\<exists>b1 p1. infectious tp cfg ps i p = Inr (b1, p1)"
    using lk si by (auto simp: infectious_def flip_def split: bool.splits)
  then obtain b1 p1 where a: "infectious tp cfg ps i p = Inr (b1, p1)" by blast
  have "\<exists>b2 p2. susceptible tp ps j p1 = Inr (b2, p2)"
    using lk by (auto simp: susceptible_def flip_def split: bool.splits)
  then obtain b2 p2 where b: "susceptible tp ps j p1 = Inr (b2, p2)" by blast
  have c: "exposed cfg ps i = Inr (cfg_di cfg < state (ps ! i)
      \<and> state (ps ! i) \<le> cfg_di cfg + cfg_de cfg)"
    "infected cfg ps i = Inr (0 < state (ps ! i) \<and> state (ps ! i) \<le> cfg_di cfg)"
    using lk by (simp_all add: exposed_def infected_def)
  show ?thesis using a b c
    by (auto simp: transmits_def flip_def split: bool.splits)
qed

lemma infect_well_formed:
  assumes inf: "infect tp cfg (pop s) j p = Inr (ps', p')" and wf: "well_formed s"
  shows "well_formed (s\<lparr>pop := ps', newinf := List.insert j (newinf s), totinf := t,
      ever_infected := e, pos := p'\<rparr>)"
proof -
  note f = infect_result [OF inf]
  have "\<forall>i\<in>set (inf_set s) \<union> set (List.insert j (newinf s)).
      i < length ps' \<and> sociso (ps' ! i) \<noteq> None"
  proof
    fix i assume i: "i \<in> set (inf_set s) \<union> set (List.insert j (newinf s))"
    show "i < length ps' \<and> sociso (ps' ! i) \<noteq> None"
    proof (cases "i = j")
      case True
      then show ?thesis using f by simp
    next
      case False
      then have "i \<in> set (inf_set s) \<union> set (newinf s)" using i by auto
      then have "i < length (pop s) \<and> sociso (pop s ! i) \<noteq> None"
        using wf by (simp add: well_formed_def)
      then show ?thesis using f False by simp
    qed
  qed
  then show ?thesis by (simp add: well_formed_def)
qed

lemma contact_step_ok:
  assumes wf: "well_formed s" and i: "i \<in> set (inf_set s)" and j: "j < length (pop s)"
  shows "\<exists>s'. contact_step tp cfg i j s = Inr s' \<and> well_formed s'
     \<and> inf_set s' = inf_set s \<and> length (pop s') = length (pop s)"
proof -
  have iv: "i < length (pop s)" "sociso (pop s ! i) \<noteq> None"
    using wf i by (simp_all add: well_formed_def)
  from transmits_ok [OF iv(1) j iv(2), of tp cfg "pos s"] obtain b p where
    t: "transmits tp cfg (pop s) i j (pos s) = Inr (b, p)" by blast
  show ?thesis
  proof (cases b)
    case True
    from infect_ok [OF j, of tp cfg p] obtain ps' p' where
      inf: "infect tp cfg (pop s) j p = Inr (ps', p')" by blast
    let ?s' = "s\<lparr>pop := ps', newinf := List.insert j (newinf s), totinf := totinf s + 1,
      ever_infected := List.insert j (ever_infected s), pos := p'\<rparr>"
    have "contact_step tp cfg i j s = Inr ?s'" using t True inf by (simp add: contact_step_def)
    moreover have "well_formed ?s'" using inf wf by (rule infect_well_formed)
    moreover have "length (pop ?s') = length (pop s)" using infect_result [OF inf] by simp
    ultimately show ?thesis by auto
  next
    case False
    then have "contact_step tp cfg i j s = Inr (s\<lparr>pos := p\<rparr>)"
      using t by (simp add: contact_step_def)
    moreover have "well_formed (s\<lparr>pos := p\<rparr>)" using wf by (simp add: well_formed_def)
    ultimately show ?thesis by auto
  qed
qed

lemma contacts_loop_ok:
  "well_formed s \<Longrightarrow> i \<in> set (inf_set s) \<Longrightarrow> \<forall>j\<in>set js. j < length (pop s) \<Longrightarrow>
     \<exists>s'. contacts_loop tp cfg i js s = Inr s' \<and> well_formed s'
       \<and> inf_set s' = inf_set s \<and> length (pop s') = length (pop s)"
proof (induction js arbitrary: s)
  case Nil
  then show ?case by simp
next
  case (Cons j js)
  then have "j < length (pop s)" by simp
  from contact_step_ok [OF Cons.prems(1,2) this, of tp cfg] obtain s1 where
    c: "contact_step tp cfg i j s = Inr s1" "well_formed s1" "inf_set s1 = inf_set s"
    "length (pop s1) = length (pop s)"
    by blast
  have "i \<in> set (inf_set s1)" "\<forall>k\<in>set js. k < length (pop s1)"
    using c Cons.prems by simp_all
  from Cons.IH [OF c(2) this] show ?case using c by simp
qed

lemma interactions_flat_ok:
  assumes "cfg_N cfg = IntV n" and "0 \<le> cfg_m cfg" and "cfg_m cfg \<le> int (length ps)"
  shows "\<exists>js p'. interactions tp cfg ps i p = Inr (js, p') \<and> (\<forall>j\<in>set js. j < length ps)"
proof -
  from randint_range [OF assms(2), of tp p] obtain k where
    r: "randint tp p 0 (cfg_m cfg) = Inr (k, Suc p)" "0 \<le> k" "k \<le> cfg_m cfg" by blast
  then have "k \<le> int (length ps)" using assms(3) by simp
  from sample_range_ok [OF r(2) this, of tp "Suc p"] obtain js p' where
    "sample tp (Suc p) [0..<length ps] k = Inr (js, p')" "\<forall>x\<in>set js. x < length ps"
    by blast
  then show ?thesis using r(1) assms(1) by (simp add: interactions_def)
qed

lemma scan_flat_ok:
  assumes "cfg_N cfg = IntV n" and "0 \<le> cfg_m cfg"
  shows "well_formed s \<Longrightarrow> set is \<subseteq> set (inf_set s) \<Longrightarrow> cfg_m cfg \<le> int (length (pop s))
     \<Longrightarrow> \<exists>s'. scan tp cfg is s = Inr s' \<and> well_formed s'
       \<and> inf_set s' = inf_set s \<and> length (pop s') = length (pop s)"
proof (induction "is" arbitrary: s)
  case Nil
  then show ?case by simp
next
  case (Cons i "is")
  from interactions_flat_ok [OF assms Cons.prems(3), of tp i "pos s"] obtain js p where
    a: "interactions tp cfg (pop s) i (pos s) = Inr (js, p)" "\<forall>j\<in>set js. j < length (pop s)"
    by blast
  have wf: "well_formed (s\<lparr>pos := p\<rparr>)" using Cons.prems(1) by (simp add: well_formed_def)
  have i: "i \<in> set (inf_set (s\<lparr>pos := p\<rparr>))" using Cons.prems(2) by simp
  have js: "\<forall>j\<in>set js. j < length (pop (s\<lparr>pos := p\<rparr>))" using a(2) by simp
  from contacts_loop_ok [OF wf i js, of tp cfg] obtain s1 where
    c: "contacts_loop tp cfg i js (s\<lparr>pos := p\<rparr>) = Inr s1" "well_formed s1"
    "inf_set s1 = inf_set s" "length (pop s1) = length (pop s)"
    by auto
  have st: "agent_step tp cfg i s = Inr s1" using a(1) c(1) by (simp add: agent_step_def)
  have "set is \<subseteq> set (inf_set s1)" "cfg_m cfg \<le> int (length (pop s1))"
    using c Cons.prems by simp_all
  from Cons.IH [OF c(2) this] show ?case using st c by simp
qed

lemma transmission_flat_ok:
  assumes "cfg_N cfg = IntV n" and "0 \<le> cfg_m cfg" and "well_formed s"
    and "cfg_m cfg \<le> int (length (pop s))"
  shows "\<exists>s'. transmission tp cfg s = Inr s' \<and> well_formed s'
     \<and> length (pop s') = length (pop s)"
proof -
  have wf: "well_formed (s\<lparr>newinf := []\<rparr>)" using assms(3) by (simp add: well_formed_def)
  have sub: "set (inf_set s) \<subseteq> set (inf_set (s\<lparr>newinf := []\<rparr>))" by simp
  have m: "cfg_m cfg \<le> int (length (pop (s\<lparr>newinf := []\<rparr>)))" using assms(4) by simp
  from scan_flat_ok [OF assms(1,2) wf sub m, of tp] obtain s1 where
    sc: "scan tp cfg (inf_set s) (s\<lparr>newinf := []\<rparr>) = Inr s1" "well_formed s1"
    "length (pop s1) = length (pop s)"
    by auto
  let ?s' = "s1\<lparr>inf_set := fold List.insert (newinf s1) (inf_set s1)\<rparr>"
  have "transmission tp cfg s = Inr ?s'" using sc(1) by (simp add: transmission_def)
  moreover have "well_formed ?s'" using sc(2) by (auto simp: well_formed_def fold_insert_set)
  ultimately show ?thesis using sc(3) by auto
qed

lemma sim_loop_flat_ok:
  "cfg_N cfg = IntV n \<Longrightarrow> 0 \<le> cfg_m cfg \<Longrightarrow> well_formed s
     \<Longrightarrow> cfg_m cfg \<le> int (length (pop s)) \<Longrightarrow> 0 < length (pop s)
     \<Longrightarrow> \<exists>rep. sim_loop tp cfg r s = Inr rep"
proof (induction tp cfg r s rule: sim_loop.induct)
  case (1 tp cfg rounds s)
  have fin: "\<And>oc s'. 0 < length (pop s') \<Longrightarrow> \<exists>rep. finalize oc s' = Inr rep"
    by (simp add: finalize_def)
  show ?case
  proof (cases "rounds < cfg_max cfg")
    case False
    then show ?thesis using fin [OF "1.prems"(5)] by simp
  next
    case True
    from begin_day_ok [OF "1.prems"(3), of tp cfg] obtain s1 where
      b: "begin_day tp cfg s = Inr s1" "well_formed s1" "length (pop s1) = length (pop s)"
      by blast
    show ?thesis
    proof (cases "last (curve s1) = 0")
      case z: True
      have "0 < length (pop s1)" using b "1.prems"(5) by simp
      from fin [OF this, of Extinguished] show ?thesis using True b z by simp
    next
      case nz: False
      have m: "cfg_m cfg \<le> int (length (pop s1))" using b "1.prems"(4) by simp
      from transmission_flat_ok [OF "1.prems"(1,2) b(2) m, of tp] obtain s2 where
        t: "transmission tp cfg s1 = Inr s2" "well_formed s2"
        "length (pop s2) = length (pop s1)"
        by blast
      have "cfg_m cfg \<le> int (length (pop s2))" "0 < length (pop s2)"
        using t b "1.prems" by simp_all
      from "1.IH" [OF True b(1) nz t(1) "1.prems"(1,2) t(2) this] show ?thesis
        using True b nz t by simp
    qed
  qed
qed

text \<open>
  A run never raises on a flat configuration of the right shape: a population of \<open>N > 0\<close>
  agents, an initial count \<open>0 \<le> I \<le> N\<close> and a contact bound \<open>0 \<le> m \<le> N\<close>. Every call of
  \<open>sample\<close> then asks for no more than the population holds, every index is in range and
  every infected agent has its \<open>sociso\<close> key; \<open>sim\<close> returns its report.
\<close>

proposition sim_flat_returns:
  assumes "cfg_N cfg = IntV n" and "cfg_I cfg = IntV k" and "0 < n"
    and "0 \<le> k" and "k \<le> int n" and "0 \<le> cfg_m cfg" and "cfg_m cfg \<le> int n"
  shows "\<exists>rep. sim tp cfg = Inr rep"
proof -
  from init_flat_ok [OF assms(1,2,4,5), of tp] obtain s where
    i: "init tp cfg = Inr s" "well_formed s" "length (pop s) = n" by blast
  have "cfg_m cfg \<le> int (length (pop s))" "0 < length (pop s)" using i assms by simp_all
  from sim_loop_flat_ok [OF assms(1,6) i(2) this, of tp 0] show ?thesis
    using i(1) by (simp add: sim_def)
qed

section \<open>Infection events and ever-infected agents\<close>

lemma step_inv_count:
  assumes "sim_step tp cfg (pt, s) (pt', s')" and "inv_count s"
  shows "inv_count s'"
  using assms(1)
proof (cases rule: sim_step.cases)
  case (st_update r)
  from begin_day_result [OF st_update(4)] assms(2) show ?thesis by (simp add: inv_count_def)
next
  case (st_contact i j r js "is")
  from contact_step_frame [OF st_contact(3)]
  consider "totinf s' = totinf s" "ever_infected s' = ever_infected s"
    | "totinf s' = totinf s + 1" "ever_infected s' = List.insert j (ever_infected s)"
    by blast
  then show ?thesis
  proof cases
    case 1
    then show ?thesis using assms(2) by (simp add: inv_count_def)
  next
    case 2
    have "length (List.insert j (ever_infected s)) \<le> Suc (length (ever_infected s))"
      by (simp add: List.insert_def)
    then show ?thesis using 2 assms(2) by (simp add: inv_count_def)
  qed
qed (use assms(2) in \<open>simp_all add: inv_count_def\<close>)

lemma init_inv_count: "init tp cfg = Inr s \<Longrightarrow> inv_count s"
  using init_result [of tp cfg s] by (simp add: inv_count_def)

lemma reachable_inv_count:
  assumes "reachable tp cfg x"
  shows "inv_count (snd x)"
proof -
  from assms obtain s0 where i: "init tp cfg = Inr s0"
    and st: "(sim_step tp cfg)\<^sup>*\<^sup>* (Head 0, s0) x"
    by (auto simp: reachable_def)
  from st show ?thesis
  proof (induction rule: rtranclp_induct)
    case base
    then show ?case using init_inv_count [OF i] by simp
  next
    case (step y z)
    then show ?case using step_inv_count [of tp cfg "fst y" "snd y" "fst z" "snd z"] by simp
  qed
qed

text \<open>
  Claim C10. At every point a run reaches, the counter \<open>totinf\<close> is at least the size of
  the ever-infected set, so the reinfection count \<open>totinf - |ever_infected|\<close> is never
  negative; both start equal, and the reported reinfection count of a run that returns is
  that difference and is not negative.
\<close>

theorem totinf_ge_ever_infected:
  "(reachable tp cfg (pt, s) \<longrightarrow>
      distinct (ever_infected s) \<and> int (length (ever_infected s)) \<le> totinf s
      \<and> 0 \<le> totinf s - int (length (ever_infected s)))
   \<and> (init tp cfg = Inr s0 \<longrightarrow> totinf s0 = int (length (ever_infected s0)))
   \<and> (sim tp cfg = Inr rep \<longrightarrow>
        r_reinfections rep = r_totinf rep - int (r_unique rep) \<and> 0 \<le> r_reinfections rep)"
proof (intro conjI impI)
  assume "reachable tp cfg (pt, s)"
  then have c: "inv_count s" using reachable_inv_count by fastforce
  then show "distinct (ever_infected s)" "int (length (ever_infected s)) \<le> totinf s"
    "0 \<le> totinf s - int (length (ever_infected s))"
    by (simp_all add: inv_count_def)
next
  assume "init tp cfg = Inr s0"
  then show "totinf s0 = int (length (ever_infected s0))" using init_result by simp
next
  assume run: "sim tp cfg = Inr rep"
  from sim_reach [OF run] obtain pt' s' oc where r: "reachable tp cfg (pt', s')"
    and f: "finalize oc s' = Inr rep" by blast
  have c: "inv_count s'" using reachable_inv_count [OF r] by simp
  from f have rep: "r_totinf rep = totinf s'" "r_unique rep = length (ever_infected s')"
    "r_reinfections rep = totinf s' - int (length (ever_infected s'))"
    by (auto simp: finalize_def split: if_splits)
  show "r_reinfections rep = r_totinf rep - int (r_unique rep)" using rep by simp
  show "0 \<le> r_reinfections rep" using rep c by (simp add: inv_count_def)
qed

lemmas run_defs = sim_def init_def newPop_def binnedSample_def sample_def infect_def helper_def
  lookup_def flip_def random_def update_def update_body_def begin_day_def transmission_def
  agent_step_def interactions_def randint_def contact_step_def transmits_def infectious_def
  susceptible_def exposed_def infected_def finalize_def new_agents_numeral pick_numeral

lemma sim_cfg_w: "sim tape_half cfg_w = Inr report_w"
  by (simp add: run_defs tape_half_def cfg_w_def agent_plain_def report_w_def)

theorem totinf_ge_ever_infected_witness:
  "init tape_half cfg_w = Inr state_i \<and> sim tape_half cfg_w = Inr report_w
   \<and> int (length (ever_infected state_i)) \<le> totinf state_i
   \<and> totinf state_i = int (length (ever_infected state_i))
   \<and> 0 \<le> r_reinfections report_w"
proof -
  have r: "reachable tape_half cfg_w (Head 0, state_i)"
    using init_cfg_w by (rule reachable_init)
  show ?thesis
    using totinf_ge_ever_infected [of tape_half cfg_w "Head 0" state_i state_i report_w]
      r init_cfg_w sim_cfg_w by simp
qed

section \<open>Natural immunity\<close>

lemma step_inv_imm:
  assumes "sim_step tp cfg (pt, s) (pt', s')" and "inv_imm s"
  shows "inv_imm s' \<and> length (pop s') = length (pop s)
     \<and> (\<forall>i<length (pop s). natural_immunity (pop s ! i) \<le> natural_immunity (pop s' ! i))"
  using assms(1)
proof (cases rule: sim_step.cases)
  case (st_update r)
  from begin_day_result [OF st_update(4)]
  have u: "update tp (pos s) (pop s) (inf_set s) cfg = Inr (pop s', inf_set s', pos s')" by simp
  have d: "distinct (inf_set s)" using assms(2) by (simp add: inv_imm_def)
  note us = update_states [OF u d]
  have each: "\<forall>i<length (pop s). natural_immunity (pop s ! i) \<le> natural_immunity (pop s' ! i)
      \<and> natural_immunity (pop s' ! i) \<le> 9 / 10"
  proof (intro allI impI)
    fix i assume i: "i < length (pop s)"
    then have le: "natural_immunity (pop s ! i) \<le> 9 / 10" using assms(2) by (simp add: inv_imm_def)
    show "natural_immunity (pop s ! i) \<le> natural_immunity (pop s' ! i)
      \<and> natural_immunity (pop s' ! i) \<le> 9 / 10"
    proof (cases "i \<in> set (inf_set s)")
      case True
      then show ?thesis using us le by blast
    next
      case False
      then have "pop s' ! i = pop s ! i" using us by simp
      then show ?thesis using le by simp
    qed
  qed
  then show ?thesis using us by (simp add: inv_imm_def)
next
  case (st_contact i j r js "is")
  note f = contact_step_frame [OF st_contact(3)]
  have "\<forall>k. natural_immunity (pop s' ! k) = natural_immunity (pop s ! k)"
  proof
    fix k show "natural_immunity (pop s' ! k) = natural_immunity (pop s ! k)"
      using f by (cases "k = j") auto
  qed
  then show ?thesis using f assms(2) by (simp add: inv_imm_def)
next
  case (st_merge r)
  then show ?thesis using assms(2) by (simp add: inv_imm_def fold_insert_distinct)
qed (use assms(2) in \<open>simp_all add: inv_imm_def\<close>)

lemma init_inv_imm: "init tp cfg = Inr s \<Longrightarrow> inv_imm s"
  using init_result [of tp cfg s] by (simp add: inv_imm_def)

lemma steps_inv_imm:
  assumes "(sim_step tp cfg)\<^sup>*\<^sup>* x y" and "inv_imm (snd x)"
  shows "inv_imm (snd y) \<and> length (pop (snd y)) = length (pop (snd x))
     \<and> (\<forall>i<length (pop (snd x)).
          natural_immunity (pop (snd x) ! i) \<le> natural_immunity (pop (snd y) ! i))"
  using assms
proof (induction rule: rtranclp_induct)
  case base
  then show ?case by simp
next
  case (step y z)
  then have ih: "inv_imm (snd y)" "length (pop (snd y)) = length (pop (snd x))"
    "\<forall>i<length (pop (snd x)).
        natural_immunity (pop (snd x) ! i) \<le> natural_immunity (pop (snd y) ! i)"
    by simp_all
  have "sim_step tp cfg (fst y, snd y) (fst z, snd z)" using step.hyps(2) by simp
  from step_inv_imm [OF this ih(1)]
  have st: "inv_imm (snd z)" "length (pop (snd z)) = length (pop (snd y))"
    "\<forall>i<length (pop (snd y)).
        natural_immunity (pop (snd y) ! i) \<le> natural_immunity (pop (snd z) ! i)"
    by simp_all
  have "\<forall>i<length (pop (snd x)).
          natural_immunity (pop (snd x) ! i) \<le> natural_immunity (pop (snd z) ! i)"
  proof (intro allI impI)
    fix i assume i: "i < length (pop (snd x))"
    then have "natural_immunity (pop (snd x) ! i) \<le> natural_immunity (pop (snd y) ! i)"
      using ih(3) by simp
    moreover have "natural_immunity (pop (snd y) ! i) \<le> natural_immunity (pop (snd z) ! i)"
      using st(3) i ih(2) by simp
    ultimately show "natural_immunity (pop (snd x) ! i) \<le> natural_immunity (pop (snd z) ! i)"
      by simp
  qed
  then show ?case using st ih(2) by simp
qed

text \<open>
  Claim C8. For every agent, \<open>natural_immunity\<close> never decreases from one point of a run
  to any later point, and never exceeds \<open>0.9\<close>.
\<close>

theorem natural_immunity_monotone:
  assumes "reachable tp cfg (pt, s)" and "(sim_step tp cfg)\<^sup>*\<^sup>* (pt, s) (pt', s')"
    and "i < length (pop s)"
  shows "i < length (pop s')
     \<and> natural_immunity (pop s ! i) \<le> natural_immunity (pop s' ! i)
     \<and> natural_immunity (pop s' ! i) \<le> 9 / 10"
proof -
  from assms(1) obtain s0 where i0: "init tp cfg = Inr s0"
    and st: "(sim_step tp cfg)\<^sup>*\<^sup>* (Head 0, s0) (pt, s)"
    by (auto simp: reachable_def)
  have "inv_imm (snd (Head 0, s0))" using init_inv_imm [OF i0] by simp
  with st have "inv_imm (snd (pt, s))" using steps_inv_imm by blast
  with assms(2) have r: "inv_imm (snd (pt', s'))"
    "length (pop (snd (pt', s'))) = length (pop (snd (pt, s)))"
    "\<forall>i<length (pop (snd (pt, s))).
          natural_immunity (pop (snd (pt, s)) ! i) \<le> natural_immunity (pop (snd (pt', s')) ! i)"
    using steps_inv_imm by blast+
  then show ?thesis using assms(3) by (simp add: inv_imm_def)
qed

lemma begin_day_state_i: "begin_day tape_half cfg_w state_i = Inr state_u"
  by (simp add: begin_day_def update_def update_body_def lookup_def state_i_def state_u_def
      agent_plain_def)

theorem natural_immunity_monotone_witness:
  "init tape_half cfg_w = Inr state_i \<and> begin_day tape_half cfg_w state_i = Inr state_u
   \<and> natural_immunity (pop state_i ! 1) \<le> natural_immunity (pop state_u ! 1)
   \<and> natural_immunity (pop state_u ! 1) \<le> 9 / 10"
proof -
  have r: "reachable tape_half cfg_w (Head 0, state_i)"
    using init_cfg_w by (rule reachable_init)
  have m: "0 < cfg_max cfg_w" by (simp add: cfg_w_def)
  have "sim_step tape_half cfg_w (Head 0, state_i) (Updated 0, state_u)"
    using m begin_day_state_i by (rule st_update)
  then have st: "(sim_step tape_half cfg_w)\<^sup>*\<^sup>* (Head 0, state_i) (Updated 0, state_u)"
    by (rule r_into_rtranclp)
  have i: "1 < length (pop state_i)" by (simp add: state_i_def)
  show ?thesis
    using natural_immunity_monotone [OF r st i] init_cfg_w begin_day_state_i by simp
qed

section \<open>Reads and writes of the transmission scan\<close>

lemma contact_step_scan_frame:
  assumes c: "contact_step tp cfg i j s = Inr s'" and f: "scan_frame cfg s1 s"
  shows "scan_frame cfg s1 s'"
proof -
  from contact_step_frame [OF c]
  have k: "inf_set s' = inf_set s" "length (pop s') = length (pop s)" by simp_all
  from contact_step_frame [OF c]
  consider (same) "pop s' = pop s" "newinf s' = newinf s"
    | (new) "j < length (pop s)" "state (pop s ! j) = - 1"
      "state (pop s' ! j) = cfg_di cfg + cfg_de cfg + 1"
      "\<forall>k. k \<noteq> j \<longrightarrow> pop s' ! k = pop s ! k" "newinf s' = List.insert j (newinf s)"
    by blast
  then show ?thesis
  proof cases
    case same
    then show ?thesis using f k by (simp add: scan_frame_def)
  next
    case new
    have "\<forall>m<length (pop s1).
            if m \<in> set (newinf s')
            then state (pop s1 ! m) = - 1 \<and> state (pop s' ! m) = cfg_di cfg + cfg_de cfg + 1
            else state (pop s' ! m) = state (pop s1 ! m)"
    proof (intro allI impI)
      fix m assume m: "m < length (pop s1)"
      show "if m \<in> set (newinf s')
            then state (pop s1 ! m) = - 1 \<and> state (pop s' ! m) = cfg_di cfg + cfg_de cfg + 1
            else state (pop s' ! m) = state (pop s1 ! m)"
      proof (cases "m = j")
        case True
        have "state (pop s1 ! j) = - 1"
          using f m True new(2) by (auto simp: scan_frame_def split: if_splits)
        then show ?thesis using True new by simp
      next
        case False
        then show ?thesis using f m new by (auto simp: scan_frame_def split: if_splits)
      qed
    qed
    then show ?thesis using f k by (simp add: scan_frame_def)
  qed
qed

lemma steps_scan_frame:
  assumes "(sim_step tp cfg)\<^sup>*\<^sup>* (Updated r, s1) x"
  shows "3 * r + 1 \<le> rank (fst x) \<and> (fst x = Updated r \<longrightarrow> snd x = s1)
     \<and> (scanning r (fst x) \<longrightarrow> scan_frame cfg s1 (snd x))"
  using assms
proof (induction rule: rtranclp_induct)
  case base
  then show ?case by simp
next
  case (step y z)
  then have rk: "3 * r + 1 \<le> rank (fst y)" and up: "fst y = Updated r \<longrightarrow> snd y = s1"
    and sf: "scanning r (fst y) \<longrightarrow> scan_frame cfg s1 (snd y)"
    by simp_all
  have st: "sim_step tp cfg (fst y, snd y) (fst z, snd z)" using step.hyps(2) by simp
  have rz: "rank (fst y) \<le> rank (fst z)" using step.hyps(2) by (rule step_rank)
  from st show ?case
  proof (cases rule: sim_step.cases)
    case (st_update r')
    then have "rank (fst z) = rank (fst y) + 1" by simp
    then have "fst z \<noteq> Updated r" using rk by auto
    then show ?thesis using rk rz st_update(2) by simp
  next
    case (st_scan r')
    have "scanning r (fst z) \<longrightarrow> scan_frame cfg s1 (snd z)"
    proof
      assume "scanning r (fst z)"
      then have "r' = r" using st_scan(2) by simp
      then have "snd y = s1" using up st_scan(1) by simp
      then show "scan_frame cfg s1 (snd z)" using st_scan by (simp add: scan_frame_def)
    qed
    then show ?thesis using rk rz st_scan(2) by simp
  next
    case (st_sample i js p r' "is")
    then show ?thesis using rk rz sf by (simp add: scan_frame_def)
  next
    case (st_contact i j r' js "is")
    then show ?thesis using rk rz sf contact_step_scan_frame by simp
  next
    case (st_next r' i "is")
    then show ?thesis using rk rz sf by simp
  next
    case (st_merge r')
    then show ?thesis using rk rz by (auto simp: rank_updated [symmetric])
  qed
qed

text \<open>
  Claim C5, as amended. During a day's transmission scan the infected set that is iterated
  is never modified, and every agent that has not been newly infected during the scan
  keeps the state it had at the start of the phase. A new infection of \<open>j\<close> (which had
  state \<open>-1\<close>) writes \<open>state[j] = di+de+1\<close> into the shared population at once, where the
  later reads of the same scan observe it; only the membership of \<open>j\<close> in the infected set
  is deferred: \<open>j\<close> is put into the per-day accumulator \<open>newinf\<close>, which the step that ends
  the scan merges into the infected set, leaving the population as it is.
\<close>

theorem scan_reads_and_writes:
  assumes "(sim_step tp cfg)\<^sup>*\<^sup>* (Updated r, s1) (pt, s)" and "scanning r pt"
  shows "inf_set s = inf_set s1 \<and> length (pop s) = length (pop s1)
     \<and> (\<forall>j<length (pop s1).
           if j \<in> set (newinf s)
           then state (pop s1 ! j) = - 1 \<and> state (pop s ! j) = cfg_di cfg + cfg_de cfg + 1
           else state (pop s ! j) = state (pop s1 ! j))
     \<and> (\<forall>pt' s'. sim_step tp cfg (pt, s) (pt', s') \<and> boundary pt' \<longrightarrow>
           pop s' = pop s \<and> inf_set s' = fold List.insert (newinf s) (inf_set s1))"
proof -
  from steps_scan_frame [OF assms(1)] assms(2) have f: "scan_frame cfg s1 s" by simp
  have "\<forall>pt' s'. sim_step tp cfg (pt, s) (pt', s') \<and> boundary pt' \<longrightarrow>
           pop s' = pop s \<and> inf_set s' = fold List.insert (newinf s) (inf_set s1)"
  proof (intro allI impI)
    fix pt' s' assume a: "sim_step tp cfg (pt, s) (pt', s') \<and> boundary pt'"
    then have "sim_step tp cfg (pt, s) (pt', s')" "boundary pt'" by simp_all
    then show "pop s' = pop s \<and> inf_set s' = fold List.insert (newinf s) (inf_set s1)"
      using assms(2) f by (cases rule: sim_step.cases) (auto simp: scan_frame_def)
  qed
  then show ?thesis using f by (simp add: scan_frame_def)
qed

lemmas scan_defs = agent_step_def interactions_def randint_def sample_def contact_step_def
  transmits_def infectious_def susceptible_def exposed_def infected_def infect_def helper_def
  lookup_def flip_def random_def tape_half_def cfg_c_def cfg_w_def scan_a_def scan_b_def
  agent_plain_def

lemma agent_step_a: "agent_step tape_half cfg_c 0 scan_a = Inr scan_b"
  by (simp add: scan_defs)

lemma agent_step_b: "agent_step tape_half cfg_c 2 scan_b = Inr (scan_b\<lparr>pos := 14\<rparr>)"
  by (simp add: scan_defs)

text \<open>
  Claim C5 as stated fails. In one scan over the infected agents \<open>0\<close> and \<open>2\<close>, both of
  whom meet agent \<open>1\<close>: the contact of agent \<open>0\<close> writes \<open>state[1] = 9\<close> into the
  population, and the read of \<open>state[1]\<close> in \<open>susceptible(1)\<close> for agent \<open>2\<close> sees \<open>9\<close>, not
  the value \<open>-1\<close> of the start of the phase (on which \<open>susceptible(1)\<close> would hold).
\<close>

theorem scan_read_sees_same_day_write:
  "scan tape_half cfg_c [0, 2] scan_a = Inr (scan_b\<lparr>pos := 14\<rparr>)
   \<and> agent_step tape_half cfg_c 0 scan_a = Inr scan_b
   \<and> agent_step tape_half cfg_c 2 scan_b = Inr (scan_b\<lparr>pos := 14\<rparr>)
   \<and> state (pop scan_a ! 1) = - 1 \<and> state (pop scan_b ! 1) = 9
   \<and> susceptible tape_half (pop scan_a) 1 14 = Inr (True, 17)
   \<and> susceptible tape_half (pop scan_b) 1 14 = Inr (False, 14)"
  using agent_step_a agent_step_b
  by (simp add: susceptible_def lookup_def flip_def random_def tape_half_def scan_a_def
      scan_b_def agent_plain_def)

theorem scan_reads_and_writes_witness:
  "(sim_step tape_half cfg_c)\<^sup>*\<^sup>* (Updated 0, scan_a) (Scan 0 [2], scan_b)
   \<and> inf_set scan_b = inf_set scan_a
   \<and> state (pop scan_b ! 1) = cfg_di cfg_c + cfg_de cfg_c + 1
   \<and> state (pop scan_b ! 0) = state (pop scan_a ! 0)"
proof -
  have c: "last (curve scan_a) \<noteq> 0" by (simp add: scan_a_def)
  have n: "scan_a\<lparr>newinf := []\<rparr> = scan_a" by (simp add: scan_a_def)
  have "sim_step tape_half cfg_c (Updated 0, scan_a) (Scan 0 (inf_set scan_a), scan_a\<lparr>newinf := []\<rparr>)"
    using c by (rule st_scan)
  then have 1: "sim_step tape_half cfg_c (Updated 0, scan_a) (Scan 0 [0, 2], scan_a)"
    using n by (simp add: scan_a_def)
  have 2: "(sim_step tape_half cfg_c)\<^sup>*\<^sup>* (Scan 0 [0, 2], scan_a) (Scan 0 [2], scan_b)"
    using agent_step_a by (rule agent_step_steps)
  from 1 2 have st: "(sim_step tape_half cfg_c)\<^sup>*\<^sup>* (Updated 0, scan_a) (Scan 0 [2], scan_b)"
    by (rule converse_rtranclp_into_rtranclp)
  have sc: "scanning 0 (Scan 0 [2])" by simp
  have "1 \<in> set (newinf scan_b)" "0 \<notin> set (newinf scan_b)" "1 < length (pop scan_a)"
    "0 < length (pop scan_a)"
    by (simp_all add: scan_a_def scan_b_def)
  then show ?thesis using scan_reads_and_writes [OF st sc] st by (metis (full_types))
qed

section \<open>The curve and the terminal state\<close>

subsection \<open>The curve\<close>

lemma contacts_loop_curve: "contacts_loop tp cfg i js s = Inr s' \<Longrightarrow> curve s' = curve s"
proof (induction js arbitrary: s)
  case Nil
  then show ?case by simp
next
  case (Cons j js)
  from Cons.prems obtain s1 where c: "contact_step tp cfg i j s = Inr s1"
    and l: "contacts_loop tp cfg i js s1 = Inr s'"
    by (auto split: sum.splits)
  from contact_step_frame [OF c] Cons.IH [OF l] show ?case by simp
qed

lemma agent_step_curve: "agent_step tp cfg i s = Inr s' \<Longrightarrow> curve s' = curve s"
  by (auto simp: agent_step_def split: sum.splits dest: contacts_loop_curve)

lemma scan_curve: "scan tp cfg is s = Inr s' \<Longrightarrow> curve s' = curve s"
proof (induction "is" arbitrary: s)
  case Nil
  then show ?case by simp
next
  case (Cons i "is")
  from Cons.prems obtain s1 where a: "agent_step tp cfg i s = Inr s1"
    and l: "scan tp cfg is s1 = Inr s'"
    by (auto split: sum.splits)
  from agent_step_curve [OF a] Cons.IH [OF l] show ?case by simp
qed

lemma transmission_curve: "transmission tp cfg s = Inr s' \<Longrightarrow> curve s' = curve s"
  by (auto simp: transmission_def split: sum.splits dest: scan_curve)

lemma zero_only_last_snoc: "0 \<notin> set c \<Longrightarrow> zero_only_last (c @ [n])"
  by (auto simp: zero_only_last_def nth_append in_set_conv_nth)

lemma zero_only_last_none: "0 \<notin> set c \<Longrightarrow> zero_only_last c"
  by (auto simp: zero_only_last_def in_set_conv_nth)

lemma sim_loop_curve:
  "sim_loop tp cfg r s = Inr rep \<Longrightarrow> 0 \<notin> set (curve s) \<Longrightarrow>
     (r_outcome rep = Extinguished \<longleftrightarrow> 0 \<in> set (r_curve rep)) \<and> zero_only_last (r_curve rep)"
proof (induction tp cfg r s rule: sim_loop.induct)
  case (1 tp cfg rounds s)
  show ?case
  proof (cases "rounds < cfg_max cfg")
    case False
    then have "finalize Persists s = Inr rep" using "1.prems"(1) by simp
    then have "r_outcome rep = Persists" "r_curve rep = curve s"
      by (auto simp: finalize_def split: if_splits)
    then show ?thesis using "1.prems"(2) by (simp add: zero_only_last_none)
  next
    case True
    with "1.prems"(1) obtain s1 where b: "begin_day tp cfg s = Inr s1"
      by (auto split: sum.splits)
    from begin_day_result [OF b] have c1: "curve s1 = curve s @ [length (inf_set s1)]" by simp
    show ?thesis
    proof (cases "last (curve s1) = 0")
      case z: True
      then have "finalize Extinguished s1 = Inr rep" using "1.prems"(1) True b by simp
      then have "r_outcome rep = Extinguished" "r_curve rep = curve s1"
        by (auto simp: finalize_def split: if_splits)
      moreover have "0 \<in> set (curve s1)" using z c1 by simp
      ultimately show ?thesis using c1 "1.prems"(2) by (simp add: zero_only_last_snoc)
    next
      case nz: False
      with "1.prems"(1) True b obtain s2 where t: "transmission tp cfg s1 = Inr s2"
        and l: "sim_loop tp cfg (rounds + 1) s2 = Inr rep"
        by (auto split: sum.splits)
      have "curve s2 = curve s1" using t by (rule transmission_curve)
      then have "0 \<notin> set (curve s2)" using nz c1 "1.prems"(2) by simp
      with "1.IH" [OF True b nz t l] show ?thesis by simp
    qed
  qed
qed

text \<open>
  Claim C6, as amended. For every run that returns and starts with at least one infected
  agent (so \<open>curve[0] > 0\<close>): the run ends in the extinguished state if and only if some
  entry of the returned curve is \<open>0\<close>, and a zero entry, if any, is the last element of the
  curve.
\<close>

theorem extinguished_iff_zero:
  assumes "sim tp cfg = Inr rep" and "init tp cfg = Inr s0" and "inf_set s0 \<noteq> []"
  shows "(r_outcome rep = Extinguished \<longleftrightarrow> 0 \<in> set (r_curve rep))
     \<and> (\<forall>d<length (r_curve rep). r_curve rep ! d = 0 \<longrightarrow> Suc d = length (r_curve rep))"
proof -
  from assms(1,2) have l: "sim_loop tp cfg 0 s0 = Inr rep" by (simp add: sim_def)
  have "curve s0 = [length (inf_set s0)]" using init_result [OF assms(2)] by simp
  then have "0 \<notin> set (curve s0)" using assms(3) by simp
  from sim_loop_curve [OF l this] show ?thesis by (simp add: zero_only_last_def)
qed

lemma init_cfg_s: "init tape_half cfg_s = Inr state_i"
  by (simp add: run_defs tape_half_def cfg_s_def cfg_w_def state_i_def agent_plain_def)

lemma sim_cfg_s: "sim tape_half cfg_s = Inr report_s"
  by (simp add: run_defs tape_half_def cfg_s_def cfg_w_def agent_plain_def report_s_def)

theorem extinguished_iff_zero_witness:
  "sim tape_half cfg_s = Inr report_s \<and> init tape_half cfg_s = Inr state_i
   \<and> inf_set state_i \<noteq> []
   \<and> r_outcome report_s = Extinguished \<and> 0 \<in> set (r_curve report_s)"
proof -
  have n: "inf_set state_i \<noteq> []" by (simp add: state_i_def)
  have "r_outcome report_s = Extinguished" by (simp add: report_s_def)
  then show ?thesis
    using extinguished_iff_zero [OF sim_cfg_s init_cfg_s n] sim_cfg_s init_cfg_s n by simp
qed

text \<open>
  Claim C6 as stated fails when no agent is initially infected (\<open>I = 0\<close>): the curve starts
  with \<open>0\<close>, day 1 is still produced and the returned curve is \<open>[0, 0]\<close>, whose first zero
  is not its last element; with \<open>max = 0\<close> in addition the run ends in the "persists" branch
  with the curve \<open>[0]\<close>.
\<close>

theorem curve_zero_not_last:
  "sim tape_half cfg_none = Inr report_none
   \<and> r_curve report_none ! 0 = 0 \<and> Suc 0 \<noteq> length (r_curve report_none)
   \<and> sim tape_half (cfg_none\<lparr>cfg_max := 0\<rparr>) = Inr (report_none\<lparr>r_outcome := Persists, r_curve := [0]\<rparr>)
   \<and> 0 \<in> set (r_curve (report_none\<lparr>r_outcome := Persists, r_curve := [0]\<rparr>))"
  by (simp add: run_defs tape_half_def cfg_none_def cfg_w_def agent_plain_def report_none_def)

section \<open>The scenario without transmission\<close>

lemma flip_zero: "no_zero_draw tp \<Longrightarrow> flip tp p 0 = (False, Suc p)"
proof -
  assume "no_zero_draw tp"
  then have "0 < tp p mod 9007199254740992" by (simp add: no_zero_draw_def)
  then have "0 < random tp p" by (simp add: random_def)
  then show ?thesis by (simp add: flip_def)
qed

lemma transmits_never:
  assumes "cfg_tpe cfg = 0" and "cfg_tpi cfg = 0" and "no_zero_draw tp"
    and "transmits tp cfg ps i j p = Inr (b, p')"
  shows "\<not> b"
proof
  assume b
  with assms(4) have "transmits tp cfg ps i j p = Inr (True, p')" by simp
  then obtain p2 where "flip tp p2 (cfg_tpe cfg) = (True, p') \<or> flip tp p2 (cfg_tpi cfg) = (True, p')"
    using transmits_True_iff [of tp cfg ps i j p p'] by blast
  then show False using assms(1,2) flip_zero [OF assms(3)] by simp
qed

lemma contact_step_idle:
  assumes "cfg_tpe cfg = 0" and "cfg_tpi cfg = 0" and "no_zero_draw tp"
    and "contact_step tp cfg i j s = Inr s'"
  shows "idle s s'"
proof -
  from assms(4) obtain b p where t: "transmits tp cfg (pop s) i j (pos s) = Inr (b, p)"
    by (auto simp: contact_step_def split: sum.splits)
  then have "\<not> b" using transmits_never [OF assms(1-3)] by blast
  with assms(4) t show ?thesis by (auto simp: contact_step_def idle_def)
qed

lemma contacts_loop_idle:
  assumes "cfg_tpe cfg = 0" and "cfg_tpi cfg = 0" and "no_zero_draw tp"
  shows "contacts_loop tp cfg i js s = Inr s' \<Longrightarrow> idle s s'"
proof (induction js arbitrary: s)
  case Nil
  then show ?case by (simp add: idle_def)
next
  case (Cons j js)
  from Cons.prems obtain s1 where c: "contact_step tp cfg i j s = Inr s1"
    and l: "contacts_loop tp cfg i js s1 = Inr s'"
    by (auto split: sum.splits)
  have "idle s s1" using assms c by (rule contact_step_idle)
  moreover have "idle s1 s'" using l by (rule Cons.IH)
  ultimately show ?case by (simp add: idle_def)
qed

lemma agent_step_idle:
  assumes "cfg_tpe cfg = 0" and "cfg_tpi cfg = 0" and "no_zero_draw tp"
    and "agent_step tp cfg i s = Inr s'"
  shows "idle s s'"
proof -
  from assms(4) obtain js p where l: "contacts_loop tp cfg i js (s\<lparr>pos := p\<rparr>) = Inr s'"
    by (auto simp: agent_step_def split: sum.splits)
  have "idle (s\<lparr>pos := p\<rparr>) s'" using assms(1-3) l by (rule contacts_loop_idle)
  then show ?thesis by (simp add: idle_def)
qed

lemma scan_idle:
  assumes "cfg_tpe cfg = 0" and "cfg_tpi cfg = 0" and "no_zero_draw tp"
  shows "scan tp cfg is s = Inr s' \<Longrightarrow> idle s s'"
proof (induction "is" arbitrary: s)
  case Nil
  then show ?case by (simp add: idle_def)
next
  case (Cons i "is")
  from Cons.prems obtain s1 where a: "agent_step tp cfg i s = Inr s1"
    and l: "scan tp cfg is s1 = Inr s'"
    by (auto split: sum.splits)
  have "idle s s1" using assms a by (rule agent_step_idle)
  moreover have "idle s1 s'" using l by (rule Cons.IH)
  ultimately show ?case by (simp add: idle_def)
qed

lemma transmission_idle:
  assumes "cfg_tpe cfg = 0" and "cfg_tpi cfg = 0" and "no_zero_draw tp"
    and "transmission tp cfg s = Inr s'"
  shows "pop s' = pop s \<and> inf_set s' = inf_set s \<and> totinf s' = totinf s
     \<and> ever_infected s' = ever_infected s \<and> curve s' = curve s"
proof -
  from assms(4) obtain s1 where sc: "scan tp cfg (inf_set s) (s\<lparr>newinf := []\<rparr>) = Inr s1"
    and s': "s' = s1\<lparr>inf_set := fold List.insert (newinf s1) (inf_set s1)\<rparr>"
    by (auto simp: transmission_def split: sum.splits)
  have "idle (s\<lparr>newinf := []\<rparr>) s1" using assms(1-3) sc by (rule scan_idle)
  then show ?thesis using s' by (simp add: idle_def)
qed

lemma begin_day_single:
  assumes b: "begin_day tp cfg s = Inr s1" and one: "inf_set s = [i]"
  shows "totinf s1 = totinf s \<and> ever_infected s1 = ever_infected s
     \<and> (1 < state (pop s ! i) \<longrightarrow>
          inf_set s1 = [i] \<and> state (pop s1 ! i) = state (pop s ! i) - 1
          \<and> curve s1 = curve s @ [1])
     \<and> (state (pop s ! i) = 1 \<longrightarrow> inf_set s1 = [] \<and> curve s1 = curve s @ [0])"
proof -
  from begin_day_result [OF b]
  have u: "update tp (pos s) (pop s) (inf_set s) cfg = Inr (pop s1, inf_set s1, pos s1)"
    and k: "totinf s1 = totinf s" "ever_infected s1 = ever_infected s"
    "curve s1 = curve s @ [length (inf_set s1)]"
    by simp_all
  have d: "distinct (inf_set s)" using one by simp
  note us = update_states [OF u d]
  have sub: "set (inf_set s1) \<subseteq> {i}" "distinct (inf_set s1)" using us one by simp_all
  have stay: "i \<in> set (inf_set s1) \<Longrightarrow> inf_set s1 = [i]"
  proof -
    assume "i \<in> set (inf_set s1)"
    then have "set (inf_set s1) = {i}" using sub(1) by blast
    then show "inf_set s1 = [i]" using sub(2)
      by (metis distinct.simps(2) empty_iff empty_set insert_iff list.exhaust list.set_intros(1)
          list.simps(15) set_ConsD singletonD)
  qed
  have leave: "i \<notin> set (inf_set s1) \<Longrightarrow> inf_set s1 = []"
    using sub(1) by (cases "inf_set s1") auto
  have i: "i \<in> set (inf_set s)" using one by simp
  show ?thesis
  proof (intro conjI impI)
    show "totinf s1 = totinf s" "ever_infected s1 = ever_infected s" using k by simp_all
  next
    assume c: "1 < state (pop s ! i)"
    then have r: "state (pop s1 ! i) = state (pop s ! i) - 1" "i \<in> set (inf_set s1)"
      using us i by blast+
    then show "inf_set s1 = [i]" using stay by simp
    then show "curve s1 = curve s @ [1]" using k by simp
    show "state (pop s1 ! i) = state (pop s ! i) - 1" using r by simp
  next
    assume c: "state (pop s ! i) = 1"
    then have "i \<notin> set (inf_set s1)" using us i by blast
    then show "inf_set s1 = []" using leave by simp
    then show "curve s1 = curve s @ [0]" using k by simp
  qed
qed

lemma sim_loop_single:
  assumes "cfg_tpe cfg = 0" and "cfg_tpi cfg = 0" and "no_zero_draw tp"
  shows "sim_loop tp cfg r s = Inr rep \<Longrightarrow> inf_set s = [i]
     \<Longrightarrow> state (pop s ! i) = int (Suc n) \<Longrightarrow> r + int (Suc n) \<le> cfg_max cfg \<Longrightarrow>
     r_curve rep = curve s @ replicate n 1 @ [0] \<and> r_outcome rep = Extinguished
     \<and> r_totinf rep = totinf s \<and> r_unique rep = length (ever_infected s)
     \<and> r_reinfections rep = totinf s - int (length (ever_infected s))"
proof (induction n arbitrary: r s)
  case 0
  then have lt: "r < cfg_max cfg" by simp
  with "0.prems"(1) obtain s1 where b: "begin_day tp cfg s = Inr s1"
    by (subst (asm) sim_loop.simps) (auto split: sum.splits)
  from begin_day_single [OF b "0.prems"(2)] "0.prems"(3)
  have s1: "totinf s1 = totinf s" "ever_infected s1 = ever_infected s"
    "curve s1 = curve s @ [0]" by simp_all
  then have "last (curve s1) = 0" by simp
  then have "finalize Extinguished s1 = Inr rep"
    using "0.prems"(1) lt b by (subst (asm) sim_loop.simps) simp
  then show ?case using s1 by (auto simp: finalize_def split: if_splits)
next
  case (Suc n)
  then have lt: "r < cfg_max cfg" by simp
  with Suc.prems(1) obtain s1 where b: "begin_day tp cfg s = Inr s1"
    by (subst (asm) sim_loop.simps) (auto split: sum.splits)
  from begin_day_single [OF b Suc.prems(2)] Suc.prems(3)
  have s1: "totinf s1 = totinf s" "ever_infected s1 = ever_infected s"
    "inf_set s1 = [i]" "state (pop s1 ! i) = int (Suc n)" "curve s1 = curve s @ [1]"
    by simp_all
  then have nz: "last (curve s1) \<noteq> 0" by simp
  with Suc.prems(1) lt b obtain s2 where t: "transmission tp cfg s1 = Inr s2"
    and l: "sim_loop tp cfg (r + 1) s2 = Inr rep"
    by (subst (asm) sim_loop.simps) (auto split: sum.splits)
  from transmission_idle [OF assms t]
  have s2: "pop s2 = pop s1" "inf_set s2 = inf_set s1" "totinf s2 = totinf s1"
    "ever_infected s2 = ever_infected s1" "curve s2 = curve s1" by simp_all
  have "r + 1 + int (Suc n) \<le> cfg_max cfg" using Suc.prems(4) by simp
  from Suc.IH [OF l _ _ this, of ] s1 s2
  show ?case by (simp add: replicate_append_same)
qed

text \<open>
  Claim C7, as amended. For \<open>tpe = tpi = 0\<close>, exactly one initially infected agent,
  \<open>di = 5\<close>, \<open>de = 3\<close> and \<open>max \<ge> 9\<close> (any \<open>rp\<close>, so \<open>rp = 1.0\<close> too), every run that
  returns and in which no uniform draw is exactly \<open>0.0\<close> produces the curve
  \<open>[1, 1, 1, 1, 1, 1, 1, 1, 1, 0]\<close>: the entry \<open>1\<close> of day 0, then \<open>de + di = 8\<close> days with
  one active case (days 1 to 8), then \<open>0\<close> on day 9, where the run ends extinguished, with
  \<open>totinf = 1\<close>, one agent ever infected and zero reinfections. The curve has nine nonzero
  entries.
\<close>

theorem single_case_epidemic:
  assumes "cfg_tpe cfg = 0" and "cfg_tpi cfg = 0" and "cfg_di cfg = 5" and "cfg_de cfg = 3"
    and "9 \<le> cfg_max cfg"
    and "init tp cfg = Inr s0" and "length (inf_set s0) = 1"
    and "\<forall>n. random tp n \<noteq> 0"
    and "sim tp cfg = Inr rep"
  shows "r_curve rep = [1, 1, 1, 1, 1, 1, 1, 1, 1, 0] \<and> r_outcome rep = Extinguished
     \<and> r_totinf rep = 1 \<and> r_unique rep = 1 \<and> r_reinfections rep = 0"
proof -
  from assms(7) obtain i where one: "inf_set s0 = [i]"
    by (cases "inf_set s0") auto
  note r = init_result [OF assms(6)]
  have i: "i < length (pop s0)" using r one by simp
  then have st: "state (pop s0 ! i) = int (Suc 8)" using r one assms(3,4) by simp
  have k: "curve s0 = [1]" "totinf s0 = 1" "ever_infected s0 = [i]" using r one by simp_all
  have nz: "no_zero_draw tp"
    unfolding no_zero_draw_def
  proof
    fix n
    have "random tp n \<noteq> 0" using assms(8) by simp
    then show "tp n mod 9007199254740992 \<noteq> 0" by (auto simp: random_def)
  qed
  from assms(9,6) have l: "sim_loop tp cfg 0 s0 = Inr rep" by (simp add: sim_def)
  have m: "0 + int (Suc 8) \<le> cfg_max cfg" using assms(5) by simp
  from sim_loop_single [OF assms(1,2) nz l one st m] k
  show ?thesis by (simp add: numeral_eq_Suc)
qed

theorem single_case_epidemic_witness:
  "sim tape_half cfg_s = Inr report_s \<and> init tape_half cfg_s = Inr state_i
   \<and> length (inf_set state_i) = 1
   \<and> r_curve report_s = [1, 1, 1, 1, 1, 1, 1, 1, 1, 0] \<and> r_outcome report_s = Extinguished
   \<and> r_totinf report_s = 1 \<and> r_unique report_s = 1 \<and> r_reinfections report_s = 0"
proof -
  have c: "cfg_tpe cfg_s = 0" "cfg_tpi cfg_s = 0" "cfg_di cfg_s = 5" "cfg_de cfg_s = 3"
    "9 \<le> cfg_max cfg_s"
    by (simp_all add: cfg_s_def cfg_w_def)
  have one: "length (inf_set state_i) = 1" by (simp add: state_i_def)
  have nz: "\<forall>n. random tape_half n \<noteq> 0" by (simp add: random_def tape_half_def)
  show ?thesis
    using single_case_epidemic [OF c init_cfg_s one nz sim_cfg_s] sim_cfg_s init_cfg_s one
    by simp
qed

text \<open>
  Claim C7 as stated fails: in the scenario the returned curve has nine nonzero entries
  (day 0 and the eight days that follow), not \<open>de + di = 8\<close>.
\<close>

theorem single_case_nine_nonzero_entries:
  "cfg_tpe cfg_s = 0 \<and> cfg_tpi cfg_s = 0 \<and> cfg_di cfg_s = 5 \<and> cfg_de cfg_s = 3
   \<and> cfg_rp cfg_s = 1 \<and> cfg_max cfg_s = 20
   \<and> init tape_half cfg_s = Inr state_i \<and> length (inf_set state_i) = 1
   \<and> sim tape_half cfg_s = Inr report_s
   \<and> r_curve report_s = [1, 1, 1, 1, 1, 1, 1, 1, 1, 0]
   \<and> length (r_curve report_s) - count_list (r_curve report_s) 0 = 9
   \<and> int (length (r_curve report_s) - count_list (r_curve report_s) 0)
       \<noteq> cfg_de cfg_s + cfg_di cfg_s"
  using init_cfg_s sim_cfg_s
  by (simp add: cfg_s_def cfg_w_def state_i_def report_s_def)

text \<open>
  The hypothesis on the draws is needed: on a tape whose draw for the trial \<open>flip(tpe)\<close> of
  the first contact is exactly \<open>0.0\<close>, the trial at rate \<open>tpe = 0\<close> succeeds
  (\<open>0.0 <= 0\<close>), a second agent is infected and the run reports two infection events.
\<close>

lemma scenario_zero_draw_run:
  "sim tape_slip cfg_s =
     Inr \<lparr>r_outcome = Extinguished, r_curve = [1, 1, 2, 2, 2, 2, 2, 2, 2, 1, 0],
          r_totinf = 2, r_unique = 2, r_attack_rate = 100, r_reinfections = 0\<rparr>"
  by (simp add: run_defs tape_slip_def cfg_s_def cfg_w_def agent_plain_def)

end
